theory Spec2Isabelle
  imports Main
begin

section \<open>Values, callbacks and the deferred-dispatch queue\<close>

text \<open>
  The channel library of \<^verbatim>\<open>src/channel.js\<close> and the task runtime of
  \<^verbatim>\<open>src/state_machine.js\<close> are written in continuation-passing style on top of a
  single primitive, \<^verbatim>\<open>nextTick\<close>. The embedding makes the event loop explicit: the
  state carries the FIFO queue of scheduled calls, and closures are represented by
  constructors that hold their captured variables.
\<close>

text \<open>
  A channel object. \<^verbatim>\<open>Base b\<close> is an object made by \<^verbatim>\<open>new Channel()\<close>; it owns
  the queues stored under \<open>b\<close>. \<^verbatim>\<open>Wrap i k N p\<close> is an object made by
  \<^verbatim>\<open>Object.create(p)\<close> in \<^verbatim>\<open>buffer\<close>, \<^verbatim>\<open>droppingBuffer\<close> or
  \<^verbatim>\<open>expiringBuffer\<close>: \<open>i\<close> is its identity, \<open>N\<close> its \<^verbatim>\<open>_bufferLength\<close>,
  \<open>p\<close> its prototype and \<^verbatim>\<open>_channel\<close>.
\<close>

datatype kind = Buffered | Dropping | Expiring

datatype chan = Base nat | Wrap nat kind int chan

text \<open>JavaScript values. Arrays and keyed objects live in the heap and are passed by reference.\<close>

datatype val = Undefined | Null | Bool bool | Num int | Str string | Chan chan | Ref nat

datatype hobj = HArr "val list" | HObj "(string \<times> val) list"

text \<open>
  Callbacks. \<open>User n\<close> is a callback supplied by the caller of the library; calling it
  is recorded in the state. The other constructors are the closures the library itself
  creates, with their captured variables.
\<close>

datatype cb =
    User nat
  | StreamNext nat nat chan "cb option"
      \<comment> \<open>\<^verbatim>\<open>next\<close> of \<^verbatim>\<open>stream\<close>: variable \<^verbatim>\<open>i\<close>, \<^verbatim>\<open>array\<close>, \<^verbatim>\<open>self\<close>, \<^verbatim>\<open>callback\<close>\<close>
  | TakeNReceive nat int chan "cb option"
      \<comment> \<open>\<^verbatim>\<open>receive\<close> of \<^verbatim>\<open>takeN\<close>: \<^verbatim>\<open>group\<close>, \<^verbatim>\<open>N\<close>, \<^verbatim>\<open>self\<close>, \<^verbatim>\<open>callback\<close>\<close>
  | ChannelReceiver bool "cb option"
      \<comment> \<open>\<^verbatim>\<open>receiver\<close> of \<^verbatim>\<open>resolveChannel\<close>: \<^verbatim>\<open>recursive\<close>, \<^verbatim>\<open>callback\<close>\<close>
  | ArrayReceiver nat nat nat bool "cb option"
      \<comment> \<open>\<^verbatim>\<open>receiver\<close> of \<^verbatim>\<open>resolveArray\<close>: variable \<^verbatim>\<open>unresolved\<close>, \<^verbatim>\<open>arr\<close>, \<^verbatim>\<open>i\<close>,
          \<^verbatim>\<open>recursive\<close>, \<^verbatim>\<open>callback\<close>\<close>
  | ObjectReceiver nat string bool "cb option"
      \<comment> \<open>\<^verbatim>\<open>receiver\<close> of \<^verbatim>\<open>resolveObject\<close>: \<^verbatim>\<open>obj\<close>, \<^verbatim>\<open>k\<close>, \<^verbatim>\<open>recursive\<close>, \<^verbatim>\<open>callback\<close>\<close>

text \<open>\<^verbatim>\<open>CBV(callback, value)\<close>: a parked value with the producer's callback.\<close>

record cbv =
  cbv_callback :: "cb option"
  cbv_value :: val

text \<open>\<^verbatim>\<open>Channel()\<close>: the two queues of a base channel.\<close>

record channel =
  queue :: "cbv list"
  pending :: "cb list"

text \<open>A call scheduled with \<^verbatim>\<open>nextTick\<close>: the callback and its two arguments.\<close>

record task =
  task_callback :: cb
  task_err :: val
  task_value :: val

text \<open>A recorded call of a user callback: which one, and its two arguments.\<close>

record call =
  call_id :: nat
  call_err :: val
  call_value :: val

record state =
  chans :: "nat \<Rightarrow> channel"
    \<comment> \<open>the queues of each base channel\<close>
  filled :: "chan \<Rightarrow> val option"
    \<comment> \<open>the objects on which \<^verbatim>\<open>fill\<close> has replaced \<^verbatim>\<open>take\<close>, \<^verbatim>\<open>put\<close> and \<^verbatim>\<open>fill\<close>\<close>
  heap :: "nat \<Rightarrow> hobj"
  nheap :: nat
  vars :: "nat \<Rightarrow> int"
    \<comment> \<open>mutable variables captured by closures\<close>
  nvars :: nat
  unresolved :: int
    \<comment> \<open>the global variable assigned by \<^verbatim>\<open>resolveObject\<close>\<close>
  ticks :: "task list"
  calls :: "call list"

definition init :: state where
  "init = \<lparr> chans = (\<lambda>_. \<lparr> queue = [], pending = [] \<rparr>), filled = (\<lambda>_. None),
            heap = (\<lambda>_. HArr []), nheap = 0, vars = (\<lambda>_. 0), nvars = 0,
            unresolved = 0, ticks = [], calls = [] \<rparr>"

datatype error = FillAfterPut | TypeError | RetryOutsideCatch | UnhandledCase

text \<open>The outcome of a call that returned, or threw with the state as it was left.\<close>

datatype ('a, 's) result = Ok 'a | Throw error 's

fun state_of :: "('s, 's) result \<Rightarrow> 's" where
  "state_of (Ok s) = s"
| "state_of (Throw e s) = s"

section \<open>The base channel\<close>

definition nextTick :: "cb \<Rightarrow> val \<Rightarrow> val \<Rightarrow> state \<Rightarrow> state" where
  "nextTick callback err v s =
     s\<lparr>ticks := ticks s @ [\<lparr> task_callback = callback, task_err = err, task_value = v \<rparr>]\<rparr>"

definition sendValue :: "val \<Rightarrow> cb option \<Rightarrow> state \<Rightarrow> state" where
  "sendValue v callback s =
     (case callback of None \<Rightarrow> s | Some c \<Rightarrow> nextTick c Null v s)"

definition sendError :: "val \<Rightarrow> cb option \<Rightarrow> state \<Rightarrow> state" where
  "sendError err callback s =
     (case callback of None \<Rightarrow> s | Some c \<Rightarrow> nextTick c err Null s)"

fun root :: "chan \<Rightarrow> nat" where
  "root (Base b) = b"
| "root (Wrap i k N p) = root p"

definition set_chan :: "nat \<Rightarrow> channel \<Rightarrow> state \<Rightarrow> state" where
  "set_chan b ch s = s\<lparr>chans := (chans s)(b := ch)\<rparr>"

text \<open>
  \<^verbatim>\<open>Channel.prototype.take\<close>, run with \<^verbatim>\<open>this\<close> an object whose queues are those
  of the base channel \<open>b\<close>.
\<close>

definition Channel_take :: "nat \<Rightarrow> cb option \<Rightarrow> state \<Rightarrow> state" where
  "Channel_take b callback s =
     (let ch = chans s b in
      case queue ch of
        q # qs \<Rightarrow>
          sendValue (cbv_value q) callback
            (sendValue (cbv_value q) (cbv_callback q) (set_chan b (ch\<lparr>queue := qs\<rparr>) s))
      | [] \<Rightarrow>
          (case callback of
             None \<Rightarrow> s
           | Some c \<Rightarrow> set_chan b (ch\<lparr>pending := pending ch @ [c]\<rparr>) s))"

text \<open>\<^verbatim>\<open>Channel.prototype.put\<close>, likewise.\<close>

definition Channel_put :: "nat \<Rightarrow> val \<Rightarrow> cb option \<Rightarrow> state \<Rightarrow> state" where
  "Channel_put b v callback s =
     (let ch = chans s b in
      case pending ch of
        p # ps \<Rightarrow>
          sendValue v (Some p)
            (sendValue v callback (set_chan b (ch\<lparr>pending := ps\<rparr>) s))
      | [] \<Rightarrow>
          set_chan b (ch\<lparr>queue := queue ch @ [\<lparr> cbv_callback = callback, cbv_value = v \<rparr>]\<rparr>) s)"

text \<open>\<^verbatim>\<open>backlog\<close>, \<^verbatim>\<open>canRead\<close>, \<^verbatim>\<open>canWrite\<close>: they read the queues through the prototype chain.\<close>

definition backlog :: "state \<Rightarrow> chan \<Rightarrow> int" where
  "backlog s c = int (length (queue (chans s (root c)))) - int (length (pending (chans s (root c))))"

definition canRead :: "state \<Rightarrow> chan \<Rightarrow> bool" where
  "canRead s c \<longleftrightarrow> length (queue (chans s (root c))) > 0 \<and> length (pending (chans s (root c))) = 0"

definition canWrite :: "state \<Rightarrow> chan \<Rightarrow> bool" where
  "canWrite s c \<longleftrightarrow> length (pending (chans s (root c))) > 0 \<or> length (queue (chans s (root c))) = 0"

section \<open>Wrapped channels and \<^verbatim>\<open>fill\<close>\<close>

text \<open>
  Method lookup. \<^verbatim>\<open>fill\<close> stores \<^verbatim>\<open>take\<close>, \<^verbatim>\<open>put\<close> and \<^verbatim>\<open>fill\<close> on the object
  it is called on; \<^verbatim>\<open>buffer\<close> stores \<^verbatim>\<open>put\<close> and \<^verbatim>\<open>take\<close> on the wrapper;
  \<^verbatim>\<open>droppingBuffer\<close> and \<^verbatim>\<open>expiringBuffer\<close> store only \<^verbatim>\<open>put\<close>, so their
  \<^verbatim>\<open>take\<close> is found along the prototype chain. \<^verbatim>\<open>fill\<close> is never stored by a
  wrapper, so it is always found along the chain.
\<close>

datatype take_method = FilledTake val | BufferedTake | PrototypeTake

fun lookup_take :: "state \<Rightarrow> chan \<Rightarrow> take_method" where
  "lookup_take s (Base b) =
     (case filled s (Base b) of Some v \<Rightarrow> FilledTake v | None \<Rightarrow> PrototypeTake)"
| "lookup_take s (Wrap i k N p) =
     (case filled s (Wrap i k N p) of
        Some v \<Rightarrow> FilledTake v
      | None \<Rightarrow> (if k = Buffered then BufferedTake else lookup_take s p))"

datatype fill_method = Noop | PrototypeFill

fun lookup_fill :: "state \<Rightarrow> chan \<Rightarrow> fill_method" where
  "lookup_fill s (Base b) =
     (case filled s (Base b) of Some v \<Rightarrow> Noop | None \<Rightarrow> PrototypeFill)"
| "lookup_fill s (Wrap i k N p) =
     (case filled s (Wrap i k N p) of Some v \<Rightarrow> Noop | None \<Rightarrow> lookup_fill s p)"

text \<open>
  The end of \<^verbatim>\<open>bufferedTake\<close>, after \<^verbatim>\<open>this._channel.take(callback)\<close>: with
  \<^verbatim>\<open>backlog() >= _bufferLength\<close>, the record at index \<^verbatim>\<open>_bufferLength - 1\<close> is
  acknowledged and its callback cleared. Reading a field of the missing record (a negative
  index) throws.
\<close>

definition bufferedTake_release :: "chan \<Rightarrow> int \<Rightarrow> state \<Rightarrow> (state, state) result" where
  "bufferedTake_release this N s =
     (if backlog s this \<ge> N then
        (let ch = chans s (root this); j = N - 1 in
         if 0 \<le> j \<and> nat j < length (queue ch) then
           (let q = queue ch ! nat j in
            Ok (set_chan (root this)
                  (ch\<lparr>queue := (queue ch)[nat j := q\<lparr>cbv_callback := None\<rparr>]\<rparr>)
                  (sendValue (cbv_value q) (cbv_callback q) s)))
         else Throw TypeError s)
      else Ok s)"

text \<open>\<^verbatim>\<open>this.take(callback)\<close>: the method found for \<open>this\<close>, run on \<open>this\<close>.\<close>

fun take_ch :: "chan \<Rightarrow> cb option \<Rightarrow> state \<Rightarrow> (state, state) result" where
  "take_ch (Base b) callback s =
     (case lookup_take s (Base b) of
        FilledTake v \<Rightarrow> Ok (sendValue v callback s)
      | _ \<Rightarrow> Ok (Channel_take b callback s))"
| "take_ch (Wrap i k N p) callback s =
     (case lookup_take s (Wrap i k N p) of
        FilledTake v \<Rightarrow> Ok (sendValue v callback s)
      | PrototypeTake \<Rightarrow> Ok (Channel_take (root p) callback s)
      | BufferedTake \<Rightarrow>
          (case take_ch p callback s of
             Throw e s' \<Rightarrow> Throw e s'
           | Ok s' \<Rightarrow> bufferedTake_release (Wrap i k N p) N s'))"

text \<open>
  The loop of \<^verbatim>\<open>expiringPut\<close>: \<^verbatim>\<open>while (this.backlog() >= this._bufferLength) this.take()\<close>.
  It does not return when the take removes nothing.
\<close>

partial_function (option) expiringPut_loop :: "chan \<Rightarrow> int \<Rightarrow> state \<Rightarrow> (state, state) result option" where
  "expiringPut_loop this N s =
     (if backlog s this \<ge> N then
        (case take_ch this None s of
           Throw e s' \<Rightarrow> Some (Throw e s')
         | Ok s' \<Rightarrow> expiringPut_loop this N s')
      else Some (Ok s))"

declare expiringPut_loop.simps [code]

text \<open>
  \<^verbatim>\<open>origPut\<close> is the \<^verbatim>\<open>put\<close> of an object on which \<^verbatim>\<open>fill\<close> has not been
  called: \<^verbatim>\<open>Channel.prototype.put\<close>, \<^verbatim>\<open>bufferedPut\<close>, \<^verbatim>\<open>droppingPut\<close> or
  \<^verbatim>\<open>expiringPut\<close>. \<^verbatim>\<open>put\<close> is \<^verbatim>\<open>this.put(value, callback)\<close>.
\<close>

fun origPut :: "chan \<Rightarrow> val \<Rightarrow> cb option \<Rightarrow> state \<Rightarrow> (state, state) result option"
  and put :: "chan \<Rightarrow> val \<Rightarrow> cb option \<Rightarrow> state \<Rightarrow> (state, state) result option" where
  "origPut (Base b) v callback s = Some (Ok (Channel_put b v callback s))"
| "origPut (Wrap i Buffered N p) v callback s =
     (if backlog s (Wrap i Buffered N p) < N then
        (case put p v None s of
           Some (Ok s') \<Rightarrow> Some (Ok (sendValue v callback s'))
         | r \<Rightarrow> r)
      else put p v callback s)"
| "origPut (Wrap i Dropping N p) v callback s =
     (if backlog s (Wrap i Dropping N p) < N then
        (case put p v None s of
           Some (Ok s') \<Rightarrow> Some (Ok (sendValue v callback s'))
         | r \<Rightarrow> r)
      else Some (Ok (sendValue Null callback s)))"
| "origPut (Wrap i Expiring N p) v callback s =
     (case expiringPut_loop (Wrap i Expiring N p) N s of
        Some (Ok s') \<Rightarrow>
          (case put p v None s' of
             Some (Ok s'') \<Rightarrow> Some (Ok (sendValue v callback s''))
           | r \<Rightarrow> r)
      | r \<Rightarrow> r)"
| "put (Base b) v callback s =
     (case filled s (Base b) of
        Some x \<Rightarrow> Some (Ok (sendError (Str ''filled'') callback s))
      | None \<Rightarrow> Some (Ok (Channel_put b v callback s)))"
| "put (Wrap i k N p) v callback s =
     (case filled s (Wrap i k N p) of
        Some x \<Rightarrow> Some (Ok (sendError (Str ''filled'') callback s))
      | None \<Rightarrow> origPut (Wrap i k N p) v callback s)"

text \<open>
  \<^verbatim>\<open>Channel.prototype.fill\<close>. The loop
  \<^verbatim>\<open>while (this.backlog() < 0) origPut.call(this, value)\<close> runs after the three
  methods have been replaced.
\<close>

partial_function (option) fill_loop :: "chan \<Rightarrow> val \<Rightarrow> state \<Rightarrow> (state, state) result option" where
  "fill_loop this v s =
     (if backlog s this < 0 then
        (case origPut this v None s of
           None \<Rightarrow> None
         | Some (Throw e s') \<Rightarrow> Some (Throw e s')
         | Some (Ok s') \<Rightarrow> fill_loop this v s')
      else Some (Ok s))"

declare fill_loop.simps [code]

definition Channel_fill :: "chan \<Rightarrow> val \<Rightarrow> state \<Rightarrow> (state, state) result option" where
  "Channel_fill this v s =
     (if backlog s this > 0 then Some (Throw FillAfterPut s)
      else fill_loop this v (s\<lparr>filled := (filled s)(this \<mapsto> v)\<rparr>))"

definition fill :: "chan \<Rightarrow> val \<Rightarrow> state \<Rightarrow> (state, state) result option" where
  "fill this v s =
     (case lookup_fill s this of
        Noop \<Rightarrow> Some (Ok s)
      | PrototypeFill \<Rightarrow> Channel_fill this v s)"

section \<open>\<^verbatim>\<open>stream\<close>, \<^verbatim>\<open>takeN\<close> and \<^verbatim>\<open>resolve\<close>\<close>

fun truthy :: "val \<Rightarrow> bool" where
  "truthy Undefined = False"
| "truthy Null = False"
| "truthy (Bool b) = b"
| "truthy (Num n) = (n \<noteq> 0)"
| "truthy (Str x) = (x \<noteq> [])"
| "truthy (Chan c) = True"
| "truthy (Ref a) = True"

text \<open>The elements of the array at an address, and \<^verbatim>\<open>array[i]\<close>.\<close>

definition elems :: "state \<Rightarrow> nat \<Rightarrow> val list" where
  "elems s a = (case heap s a of HArr xs \<Rightarrow> xs | HObj kvs \<Rightarrow> [])"

definition js_index :: "val list \<Rightarrow> int \<Rightarrow> val" where
  "js_index xs i = (if 0 \<le> i \<and> nat i < length xs then xs ! nat i else Undefined)"

text \<open>\<^verbatim>\<open>arr[i] = value\<close>: a write past the end extends the array.\<close>

definition js_set :: "val list \<Rightarrow> nat \<Rightarrow> val \<Rightarrow> val list" where
  "js_set xs i v =
     (if i < length xs then xs[i := v] else xs @ replicate (i - length xs) Undefined @ [v])"

text \<open>\<^verbatim>\<open>obj[k]\<close> and \<^verbatim>\<open>obj[k] = value\<close> on a keyed object, in key order.\<close>

fun obj_get :: "(string \<times> val) list \<Rightarrow> string \<Rightarrow> val" where
  "obj_get [] k = Undefined"
| "obj_get ((k', v) # kvs) k = (if k' = k then v else obj_get kvs k)"

fun obj_set :: "(string \<times> val) list \<Rightarrow> string \<Rightarrow> val \<Rightarrow> (string \<times> val) list" where
  "obj_set [] k v = [(k, v)]"
| "obj_set ((k', v') # kvs) k v = (if k' = k then (k, v) # kvs else (k', v') # obj_set kvs k v)"

definition fields :: "state \<Rightarrow> nat \<Rightarrow> (string \<times> val) list" where
  "fields s a = (case heap s a of HObj kvs \<Rightarrow> kvs | HArr xs \<Rightarrow> [])"

definition new_array :: "val list \<Rightarrow> state \<Rightarrow> nat \<times> state" where
  "new_array xs s = (nheap s, s\<lparr>heap := (heap s)(nheap s := HArr xs), nheap := Suc (nheap s)\<rparr>)"

definition new_object :: "(string \<times> val) list \<Rightarrow> state \<Rightarrow> nat \<times> state" where
  "new_object kvs s = (nheap s, s\<lparr>heap := (heap s)(nheap s := HObj kvs), nheap := Suc (nheap s)\<rparr>)"

definition new_var :: "int \<Rightarrow> state \<Rightarrow> nat \<times> state" where
  "new_var n s = (nvars s, s\<lparr>vars := (vars s)(nvars s := n), nvars := Suc (nvars s)\<rparr>)"

text \<open>
  \<^verbatim>\<open>Channel.prototype.takeN\<close>: \<^verbatim>\<open>group\<close> is a new array, and \<^verbatim>\<open>receive\<close> is
  the first taker.
\<close>

definition takeN :: "chan \<Rightarrow> int \<Rightarrow> cb option \<Rightarrow> state \<Rightarrow> (state, state) result" where
  "takeN this N callback s =
     (let (grp, s') = new_array [] s in
      take_ch this (Some (TakeNReceive grp N this callback)) s')"

text \<open>
  \<^verbatim>\<open>resolve\<close>, \<^verbatim>\<open>resolveChannel\<close>, \<^verbatim>\<open>resolveArray\<close> and \<^verbatim>\<open>resolveObject\<close>. The
  first argument bounds the nesting depth of arrays and objects that is followed (the
  recursion of the source ends only on structures without cycles). The loops run over
  the indices and the keys the structure has when they start.
\<close>

definition resolveChannel ::
  "chan \<Rightarrow> bool \<Rightarrow> cb option \<Rightarrow> state \<Rightarrow> (int \<times> state, state) result" where
  "resolveChannel channel recursive callback s =
     (case (if recursive then take_ch channel (Some (ChannelReceiver recursive callback)) s
            else take_ch channel callback s) of
        Throw e s' \<Rightarrow> Throw e s'
      | Ok s' \<Rightarrow> Ok (1, s'))"

fun resolve :: "nat \<Rightarrow> val \<Rightarrow> bool \<Rightarrow> cb option \<Rightarrow> state \<Rightarrow> (int \<times> state, state) result option"
  and resolveArray_loop ::
    "nat \<Rightarrow> nat \<Rightarrow> nat \<Rightarrow> nat list \<Rightarrow> bool \<Rightarrow> cb option \<Rightarrow> state \<Rightarrow> (int \<times> state, state) result option"
  and resolveObject_loop ::
    "nat \<Rightarrow> nat \<Rightarrow> string list \<Rightarrow> bool \<Rightarrow> cb option \<Rightarrow> state \<Rightarrow> (int \<times> state, state) result option"
where
  "resolve d (Chan c) recursive callback s = Some (resolveChannel c recursive callback s)"
| "resolve 0 (Ref a) recursive callback s = None"
| "resolve (Suc d) (Ref a) recursive callback s =
     (case heap s a of
        HArr xs \<Rightarrow>
          (let (u, s') = new_var 0 s in
           resolveArray_loop d u a [0..<length xs] recursive callback s')
      | HObj kvs \<Rightarrow>
          resolveObject_loop d a (map fst kvs) recursive callback (s\<lparr>unresolved := 0\<rparr>))"
| "resolve d Undefined recursive callback s = Some (Ok (0, sendValue Undefined callback s))"
| "resolve d Null recursive callback s = Some (Ok (0, sendValue Null callback s))"
| "resolve d (Bool b) recursive callback s = Some (Ok (0, sendValue (Bool b) callback s))"
| "resolve d (Num n) recursive callback s = Some (Ok (0, sendValue (Num n) callback s))"
| "resolve d (Str x) recursive callback s = Some (Ok (0, sendValue (Str x) callback s))"
| "resolveArray_loop d u a [] recursive callback s = Some (Ok (vars s u, s))"
| "resolveArray_loop d u a (i # is) recursive callback s =
     (let old = vars s u in
      case resolve d (js_index (elems s a) (int i)) recursive
             (Some (ArrayReceiver u a i recursive callback)) s of
        None \<Rightarrow> None
      | Some (Throw e s') \<Rightarrow> Some (Throw e s')
      | Some (Ok (r, s')) \<Rightarrow>
          resolveArray_loop d u a is recursive callback (s'\<lparr>vars := (vars s')(u := old + r)\<rparr>))"
| "resolveObject_loop d a [] recursive callback s = Some (Ok (unresolved s, s))"
| "resolveObject_loop d a (k # ks) recursive callback s =
     (let old = unresolved s in
      case resolve d (obj_get (fields s a) k) recursive
             (Some (ObjectReceiver a k recursive callback)) s of
        None \<Rightarrow> None
      | Some (Throw e s') \<Rightarrow> Some (Throw e s')
      | Some (Ok (r, s')) \<Rightarrow>
          resolveObject_loop d a ks recursive callback (s'\<lparr>unresolved := old + r\<rparr>))"

text \<open>\<^verbatim>\<open>Channel.resolve\<close> as a statement: the returned count is dropped.\<close>

definition resolve_call ::
  "nat \<Rightarrow> val \<Rightarrow> bool \<Rightarrow> cb option \<Rightarrow> state \<Rightarrow> (state, state) result option" where
  "resolve_call d thing recursive callback s =
     (case resolve d thing recursive callback s of
        None \<Rightarrow> None
      | Some (Throw e s') \<Rightarrow> Some (Throw e s')
      | Some (Ok (r, s')) \<Rightarrow> Some (Ok s'))"

section \<open>Calling a callback, and the event loop\<close>

fun invoke :: "nat \<Rightarrow> cb \<Rightarrow> val \<Rightarrow> val \<Rightarrow> state \<Rightarrow> (state, state) result option" where
  "invoke d (User n) err v s =
     Some (Ok (s\<lparr>calls := calls s @ [\<lparr> call_id = n, call_err = err, call_value = v \<rparr>]\<rparr>))"
| "invoke d (StreamNext i array self callback) err v s =
     (if vars s i < int (length (elems s array)) then
        put self (js_index (elems s array) (vars s i))
          (Some (StreamNext i array self callback)) (s\<lparr>vars := (vars s)(i := vars s i + 1)\<rparr>)
      else Some (Ok (sendValue (Ref array) callback s)))"
| "invoke d (TakeNReceive grp N self callback) err v s =
     (if truthy err then Some (Ok (sendError err callback s))
      else if v \<noteq> Null then
        (let s' = s\<lparr>heap := (heap s)(grp := HArr (elems s grp @ [v]))\<rparr> in
         if int (length (elems s' grp)) < N then
           Some (take_ch self (Some (TakeNReceive grp N self callback)) s')
         else Some (Ok (sendValue (Ref grp) callback s')))
      else Some (Ok (sendValue (Ref grp) callback s)))"
| "invoke d (ChannelReceiver recursive callback) err v s =
     resolve_call d v recursive callback s"
| "invoke d (ArrayReceiver u arr i recursive callback) err v s =
     (if recursive then
        resolve_call d v recursive (Some (ArrayReceiver u arr i recursive callback)) s
      else
        (let s' = s\<lparr>heap := (heap s)(arr := HArr (js_set (elems s arr) i v)),
                    vars := (vars s)(u := vars s u - 1)\<rparr> in
         if vars s' u = 0 then
           (case callback of
              None \<Rightarrow> Some (Throw TypeError s')
            | Some c \<Rightarrow> invoke d c Null (Ref arr) s')
         else Some (Ok s')))"
| "invoke d (ObjectReceiver obj k recursive callback) err v s =
     (if recursive then
        resolve_call d v recursive (Some (ObjectReceiver obj k recursive callback)) s
      else
        (let s' = s\<lparr>heap := (heap s)(obj := HObj (obj_set (fields s obj) k v)),
                    unresolved := unresolved s - 1\<rparr> in
         if unresolved s' = 0 then
           (case callback of
              None \<Rightarrow> Some (Throw TypeError s')
            | Some c \<Rightarrow> invoke d c Null (Ref obj) s')
         else Some (Ok s')))"

text \<open>\<^verbatim>\<open>Channel.prototype.stream\<close>: the variable \<^verbatim>\<open>i\<close> starts at 0 and \<^verbatim>\<open>next\<close> is called.\<close>

definition stream :: "nat \<Rightarrow> chan \<Rightarrow> nat \<Rightarrow> cb option \<Rightarrow> state \<Rightarrow> (state, state) result option" where
  "stream d this array callback s =
     (let (i, s') = new_var 0 s in
      invoke d (StreamNext i array this callback) Undefined Undefined s')"

text \<open>One turn of the event loop: the oldest scheduled call is removed and made.\<close>

definition tick :: "nat \<Rightarrow> state \<Rightarrow> (state, state) result option" where
  "tick d s =
     (case ticks s of
        [] \<Rightarrow> Some (Ok s)
      | t # ts \<Rightarrow> invoke d (task_callback t) (task_err t) (task_value t) (s\<lparr>ticks := ts\<rparr>))"

text \<open>\<open>n\<close> turns of the event loop; a throw ends the run.\<close>

fun run :: "nat \<Rightarrow> nat \<Rightarrow> state \<Rightarrow> (state, state) result option" where
  "run d 0 s = Some (Ok s)"
| "run d (Suc n) s =
     (case tick d s of
        Some (Ok s') \<Rightarrow> run d n s'
      | r \<Rightarrow> r)"

section \<open>Sequences of operations\<close>

text \<open>
  What a user of the library does to its channels: \<^verbatim>\<open>put\<close>, \<^verbatim>\<open>take\<close> and
  \<^verbatim>\<open>fill\<close> on any channel object, with callbacks of the user's own, and letting the
  event loop make its next call. A user callback that itself calls the library is the
  \<open>Tick\<close> that runs it followed by the operations it makes.
\<close>

datatype op = Put chan val "nat option" | Take chan "nat option" | Fill chan val | Tick

fun step :: "nat \<Rightarrow> op \<Rightarrow> state \<Rightarrow> (state, state) result option" where
  "step d (Put c v ack) s = put c v (map_option User ack) s"
| "step d (Take c callback) s = Some (take_ch c (map_option User callback) s)"
| "step d (Fill c v) s = fill c v s"
| "step d Tick s = tick d s"

text \<open>
  A sequence of operations; after a throw the user goes on from the state as it was left.
  The result is \<open>None\<close> when one of the operations does not return.
\<close>

fun exec :: "nat \<Rightarrow> op list \<Rightarrow> state \<Rightarrow> state option" where
  "exec d [] s = Some s"
| "exec d (x # xs) s =
     (case step d x s of
        None \<Rightarrow> None
      | Some r \<Rightarrow> exec d xs (state_of r))"

text \<open>The scheduled call that acknowledges a parked value, if it has a callback.\<close>

definition ack_task :: "cbv \<Rightarrow> task list" where
  "ack_task q =
     (case cbv_callback q of
        None \<Rightarrow> []
      | Some a \<Rightarrow> [\<lparr> task_callback = a, task_err = Null, task_value = cbv_value q \<rparr>])"

text \<open>The scheduled calls of user callbacks, as the calls they become.\<close>

fun call_of :: "task \<Rightarrow> call list" where
  "call_of t =
     (case task_callback t of
        User n \<Rightarrow> [\<lparr> call_id = n, call_err = task_err t, call_value = task_value t \<rparr>]
      | _ \<Rightarrow> [])"

definition is_User :: "cb \<Rightarrow> bool" where
  "is_User c = (case c of User n \<Rightarrow> True | _ \<Rightarrow> False)"

text \<open>A base channel holding two parked values, the first with a producer's callback.\<close>

definition two_parked :: state where
  "two_parked =
     init\<lparr>chans := (chans init)(0 :=
       \<lparr> queue = [\<lparr> cbv_callback = Some (User 1), cbv_value = Num 10 \<rparr>,
                  \<lparr> cbv_callback = None, cbv_value = Num 20 \<rparr>],
         pending = [] \<rparr>)\<rparr>"

text \<open>A base channel with one parked taker, and one with one parked value.\<close>

definition parked_taker :: state where
  "parked_taker = init\<lparr>chans := (chans init)(0 := \<lparr> queue = [], pending = [User 0] \<rparr>)\<rparr>"

definition parked_value :: state where
  "parked_value =
     init\<lparr>chans := (chans init)(0 :=
       \<lparr> queue = [\<lparr> cbv_callback = Some (User 1), cbv_value = Num 7 \<rparr>], pending = [] \<rparr>)\<rparr>"

section \<open>The task runtime\<close>

text \<open>
  An entry of the unwind stack, with the fields the source's object literals give it;
  a field that a literal does not set is \<open>None\<close> (or \<open>False\<close>). Step numbers are
  natural numbers, cleanup closures are known by a number, captured locals are a list
  of values.
\<close>

record urec =
  u_cleanup :: bool
  u_fn :: "nat option"
  u_step :: "nat option"
  u_state :: "val list option"
  u_isError :: bool
  u_retryStep :: "nat option"
  u_unwindPoint :: "nat option"
  u_restoreState :: "val list option"
  u_retry :: "nat option"
  u_phi :: "nat option"

definition no_fields :: urec where
  "no_fields = \<lparr> u_cleanup = False, u_fn = None, u_step = None, u_state = None,
                  u_isError = False, u_retryStep = None, u_unwindPoint = None,
                  u_restoreState = None, u_retry = None, u_phi = None \<rparr>"

text \<open>\<^verbatim>\<open>State()\<close>.\<close>

record State =
  state_id :: "nat option"
  args :: "val list"
  err :: val
  unwinding :: "urec list"
  waiting :: int
  isFinished :: bool
  isUnwinding :: bool
  currentErrorStep :: "urec option"
  abort_with_error :: val
  strict_unwind :: bool

definition new_State :: State where
  "new_State = \<lparr> state_id = Some 0, args = [Null, Null], err = Null, unwinding = [],
                  waiting = 0, isFinished = False, isUnwinding = False,
                  currentErrorStep = None, abort_with_error = Null, strict_unwind = False \<rparr>"

text \<open>What the runtime schedules with \<^verbatim>\<open>nextTick\<close>, and what it calls outside itself.\<close>

datatype sm_task = BoundStep | BoundUnwind | OnError val

datatype event =
    StepFn "nat option" "val list"
      \<comment> \<open>the compiled step function \<^verbatim>\<open>fn\<close>, with \<^verbatim>\<open>state.id\<close> at the call and the arguments\<close>
  | FinalCallback "val list"
  | CleanupFn nat
  | OnErrorHook val
  | ConsoleError

text \<open>
  \<^verbatim>\<open>StateMachine\<close>, together with what surrounds it: whether \<^verbatim>\<open>finalCallback\<close> and
  \<^verbatim>\<open>StateMachine.onerror\<close> are set, the task's local variables, the \<^verbatim>\<open>done\<close>
  variables of the callbacks made by \<^verbatim>\<open>thenTo\<close> and \<^verbatim>\<open>thenToWithErr\<close>, the queue
  of scheduled calls and the record of outside calls.
\<close>

record StateMachine =
  state :: State
  finalCallback :: bool
  onerror :: bool
  locals :: "val list"
  done_vars :: "nat \<Rightarrow> bool"
  ndone :: nat
  scheduled :: "sm_task list"
  trace :: "event list"

definition new_StateMachine :: "bool \<Rightarrow> bool \<Rightarrow> StateMachine" where
  "new_StateMachine callback hook =
     \<lparr> state = new_State, finalCallback = callback, onerror = hook, locals = [],
       done_vars = (\<lambda>_. False), ndone = 0, scheduled = [], trace = [] \<rparr>"

definition nextTick_sm :: "sm_task \<Rightarrow> StateMachine \<Rightarrow> StateMachine" where
  "nextTick_sm t m = m\<lparr>scheduled := scheduled m @ [t]\<rparr>"

definition emit :: "event \<Rightarrow> StateMachine \<Rightarrow> StateMachine" where
  "emit e m = m\<lparr>trace := trace m @ [e]\<rparr>"

text \<open>
  Modelled from the spec: the compiler-generated \<^verbatim>\<open>captureStateVars\<close> and
  \<^verbatim>\<open>restoreStateVars\<close> are not in the source files. Capture is a copy of the task's
  locals, restore overwrites them; restoring from a value that is not an array throws.
\<close>

definition captureStateVars :: "StateMachine \<Rightarrow> val list" where
  "captureStateVars m = locals m"

definition restoreStateVars ::
  "val list option \<Rightarrow> StateMachine \<Rightarrow> (StateMachine, StateMachine) result" where
  "restoreStateVars a m = (case a of None \<Rightarrow> Throw TypeError m | Some xs \<Rightarrow> Ok (m\<lparr>locals := xs\<rparr>))"

text \<open>The truth value of a field holding a number: a missing field and 0 are false.\<close>

fun truthy_num :: "nat option \<Rightarrow> bool" where
  "truthy_num None = False"
| "truthy_num (Some n) = (n \<noteq> 0)"

definition goTo :: "nat option \<Rightarrow> StateMachine \<Rightarrow> StateMachine" where
  "goTo i m =
     nextTick_sm BoundStep
       (m\<lparr>state := (state m)\<lparr>state_id := i, strict_unwind := False,
                               waiting := waiting (state m) + 1\<rparr>\<rparr>)"

definition start :: "StateMachine \<Rightarrow> StateMachine" where
  "start m = goTo (Some 1) m"

definition performAbort :: "StateMachine \<Rightarrow> StateMachine" where
  "performAbort m =
     (let e = abort_with_error (state m);
          m' = m\<lparr>state := (state m)\<lparr>abort_with_error := Null\<rparr>\<rparr>
      in emit (StepFn (state_id (state m')) [e]) m')"

definition step_sm :: "StateMachine \<Rightarrow> StateMachine" where
  "step_sm m =
     (let m' = m\<lparr>state := (state m)\<lparr>waiting := waiting (state m) - 1\<rparr>\<rparr> in
      if truthy (abort_with_error (state m')) then performAbort m'
      else emit (StepFn (state_id (state m')) (args (state m'))) m')"

text \<open>
  \<^verbatim>\<open>thenTo(id)\<close> and \<^verbatim>\<open>thenToWithErr(id)\<close> return a callback, known by the number of
  its \<^verbatim>\<open>done\<close> variable; \<open>thenTo_call\<close> and \<open>thenToWithErr_call\<close> are calls of it.
\<close>

definition thenTo :: "StateMachine \<Rightarrow> nat \<times> StateMachine" where
  "thenTo m =
     (ndone m, m\<lparr>done_vars := (done_vars m)(ndone m := False), ndone := Suc (ndone m),
                 state := (state m)\<lparr>waiting := waiting (state m) + 1\<rparr>\<rparr>)"

definition thenTo_call :: "nat \<Rightarrow> nat \<Rightarrow> val list \<Rightarrow> StateMachine \<Rightarrow> StateMachine" where
  "thenTo_call k i arguments m =
     (let m1 = m\<lparr>state := (state m)\<lparr>waiting := waiting (state m) - 1\<rparr>\<rparr> in
      if \<not> done_vars m1 k then
        (let m2 = m1\<lparr>done_vars := (done_vars m1)(k := True),
                     state := (state m1)\<lparr>state_id := Some i\<rparr>\<rparr> in
         if truthy (abort_with_error (state m2)) then performAbort m2
         else emit (StepFn (state_id (state m2)) arguments) m2)
      else emit ConsoleError m1)"

definition thenToWithErr_call :: "nat \<Rightarrow> nat \<Rightarrow> val list \<Rightarrow> StateMachine \<Rightarrow> StateMachine" where
  "thenToWithErr_call k i arguments m =
     (let m1 = m\<lparr>state := (state m)\<lparr>waiting := waiting (state m) - 1\<rparr>\<rparr> in
      if \<not> done_vars m1 k then
        (let m2 = m1\<lparr>done_vars := (done_vars m1)(k := True),
                     state := (state m1)\<lparr>state_id := Some i\<rparr>\<rparr> in
         if truthy (abort_with_error (state m2)) then performAbort m2
         else if length arguments \<le> 2 then
           emit (StepFn (state_id (state m2))
                   [Null, js_index arguments 0, js_index arguments 1]) m2
         else emit (StepFn (state_id (state m2)) (Null # arguments)) m2)
      else emit ConsoleError m1)"

text \<open>
  \<^verbatim>\<open>callback(err, ...)\<close>. The entry added to \<^verbatim>\<open>err.cspjsStack\<close> is a change to the error
  object, which is outside this state.
\<close>

definition callback :: "val list \<Rightarrow> StateMachine \<Rightarrow> StateMachine" where
  "callback arguments m =
     (let e = js_index arguments 0;
          m1 = m\<lparr>state := (state m)\<lparr>args := arguments, err := e, strict_unwind := True\<rparr>\<rparr>;
          m2 = (if truthy e \<and> onerror m1 then nextTick_sm (OnError e) m1 else m1)
      in nextTick_sm BoundUnwind m2)"

definition windTo :: "nat option \<Rightarrow> StateMachine \<Rightarrow> StateMachine" where
  "windTo i m = goTo i (m\<lparr>state := (state m)\<lparr>isUnwinding := False\<rparr>\<rparr>)"

definition push :: "urec \<Rightarrow> StateMachine \<Rightarrow> StateMachine" where
  "push r m = m\<lparr>state := (state m)\<lparr>unwinding := unwinding (state m) @ [r]\<rparr>\<rparr>"

definition beginCleanup ::
  "val list option \<Rightarrow> StateMachine \<Rightarrow> (StateMachine, StateMachine) result" where
  "beginCleanup st m =
     restoreStateVars st (push (no_fields\<lparr>u_restoreState := Some (captureStateVars m)\<rparr>) m)"

function unwind :: "StateMachine \<Rightarrow> (StateMachine, StateMachine) result" where
  "unwind m =
     (if length (unwinding (state m)) > 0 then
        (let w = last (unwinding (state m));
             m1 = m\<lparr>state := (state m)\<lparr>unwinding := butlast (unwinding (state m)),
                                      isUnwinding := True\<rparr>\<rparr>
         in
         if u_restoreState w \<noteq> None then
           (case restoreStateVars (u_restoreState w) m1 of
              Ok m2 \<Rightarrow> unwind m2
            | Throw e m2 \<Rightarrow> Throw e m2)
         else if truthy_num (u_retry w) then Ok (windTo (u_retry w) m1)
         else if truthy_num (u_phi w) then
           (if truthy (err (state m1)) \<or> strict_unwind (state m1)
            then Ok (nextTick_sm BoundUnwind m1)
            else Ok (windTo (u_phi w) m1))
         else if u_isError w then
           (if truthy (err (state m1))
            then Ok (goTo (u_step w) (m1\<lparr>state := (state m1)\<lparr>currentErrorStep := Some w\<rparr>\<rparr>))
            else Ok (nextTick_sm BoundUnwind m1))
         else
           (case u_fn w of
              Some f \<Rightarrow> Ok (nextTick_sm BoundUnwind (emit (CleanupFn f) m1))
            | None \<Rightarrow>
                (case beginCleanup (u_state w) m1 of
                   Ok m2 \<Rightarrow> Ok (goTo (u_step w) m2)
                 | Throw e m2 \<Rightarrow> Throw e m2)))
      else if \<not> isFinished (state m) then
        (let m1 = m\<lparr>state := (state m)\<lparr>waiting := 0, isFinished := True\<rparr>\<rparr> in
         Ok (if finalCallback m1 then emit (FinalCallback (args (state m1))) m1 else m1))
      else Ok m)"
  by pat_completeness auto
termination
  by (relation "measure (\<lambda>m. length (unwinding (state m)))")
     (auto simp: restoreStateVars_def split: option.splits)

declare unwind.simps [simp del]

definition pushCleanupAction :: "nat \<Rightarrow> StateMachine \<Rightarrow> StateMachine" where
  "pushCleanupAction f m = push (no_fields\<lparr>u_cleanup := True, u_fn := Some f\<rparr>) m"

definition pushCleanupStep :: "nat \<Rightarrow> nat \<Rightarrow> StateMachine \<Rightarrow> StateMachine" where
  "pushCleanupStep i afterID m =
     goTo (Some afterID)
       (push (no_fields\<lparr>u_cleanup := True, u_step := Some i,
                         u_state := Some (captureStateVars m)\<rparr>) m)"

definition pushErrorStep :: "nat \<Rightarrow> nat \<Rightarrow> StateMachine \<Rightarrow> StateMachine" where
  "pushErrorStep i retryID m =
     goTo (Some retryID)
       (push (no_fields\<lparr>u_isError := True, u_step := Some i, u_retryStep := Some retryID,
                         u_unwindPoint := Some (length (unwinding (state m)))\<rparr>) m)"

definition phi :: "StateMachine \<Rightarrow> StateMachine" where
  "phi m = nextTick_sm BoundUnwind m"

text \<open>
  \<^verbatim>\<open>retry\<close>. \<^verbatim>\<open>splice(index, 0, a, b)\<close> inserts \<open>a\<close> and \<open>b\<close> before position
  \<open>index\<close>, or at the end when \<open>index\<close> is past it; a missing \<open>index\<close> is 0.
\<close>

definition splice2 :: "nat option \<Rightarrow> 'a \<Rightarrow> 'a \<Rightarrow> 'a list \<Rightarrow> 'a list" where
  "splice2 index a b xs =
     (let p = (case index of None \<Rightarrow> 0 | Some n \<Rightarrow> n) in take p xs @ [a, b] @ drop p xs)"

definition retry :: "val list \<Rightarrow> StateMachine \<Rightarrow> (StateMachine, StateMachine) result" where
  "retry arguments m =
     (case currentErrorStep (state m) of
        None \<Rightarrow> Throw RetryOutsideCatch m
      | Some errorStep \<Rightarrow>
          Ok (phi (m\<lparr>state := (state m)
                \<lparr>unwinding := splice2 (u_unwindPoint errorStep) errorStep
                                (no_fields\<lparr>u_retry := u_retryStep errorStep\<rparr>)
                                (unwinding (state m)),
                 currentErrorStep := None,
                 args := Null # arguments,
                 err := Null,
                 strict_unwind := True\<rparr>\<rparr>)))"

definition pushPhi :: "nat \<Rightarrow> bool \<Rightarrow> StateMachine \<Rightarrow> StateMachine" where
  "pushPhi i captureState m =
     push (no_fields\<lparr>u_phi := Some i,
                      u_state := (if captureState then Some (captureStateVars m) else None)\<rparr>) m"

text \<open>\<^verbatim>\<open>abort\<close> of the control API.\<close>

definition abort :: "val \<Rightarrow> StateMachine \<Rightarrow> StateMachine" where
  "abort e m =
     (if waiting (state m) > 0 then m\<lparr>state := (state m)\<lparr>abort_with_error := e\<rparr>\<rparr>
      else callback [e] m)"

text \<open>One turn of the event loop of the runtime.\<close>

definition tick_sm :: "StateMachine \<Rightarrow> (StateMachine, StateMachine) result" where
  "tick_sm m =
     (case scheduled m of
        [] \<Rightarrow> Ok m
      | t # ts \<Rightarrow>
          (let m' = m\<lparr>scheduled := ts\<rparr> in
           case t of
             BoundStep \<Rightarrow> Ok (step_sm m')
           | BoundUnwind \<Rightarrow> unwind m'
           | OnError e \<Rightarrow> Ok (emit (OnErrorHook e) m')))"

text \<open>
  What the compiled step function, the callers of its callbacks and the holder of the
  control API can do to a task, and a turn of the event loop.
\<close>

datatype sm_op =
    Start | GoTo nat | ThenTo | ThenToCall nat nat "val list" | ThenToWithErrCall nat nat "val list"
  | Callback "val list" | PushCleanupAction nat | PushCleanupStep nat nat
  | PushErrorStep nat nat | Retry "val list" | PushPhi nat bool | Phi_op | Abort val
  | Assign "val list" | Tick_sm

fun step_op :: "sm_op \<Rightarrow> StateMachine \<Rightarrow> (StateMachine, StateMachine) result" where
  "step_op Start m = Ok (start m)"
| "step_op (GoTo i) m = Ok (goTo (Some i) m)"
| "step_op ThenTo m = Ok (snd (thenTo m))"
| "step_op (ThenToCall k i a) m = Ok (thenTo_call k i a m)"
| "step_op (ThenToWithErrCall k i a) m = Ok (thenToWithErr_call k i a m)"
| "step_op (Callback a) m = Ok (callback a m)"
| "step_op (PushCleanupAction f) m = Ok (pushCleanupAction f m)"
| "step_op (PushCleanupStep i j) m = Ok (pushCleanupStep i j m)"
| "step_op (PushErrorStep i j) m = Ok (pushErrorStep i j m)"
| "step_op (Retry a) m = retry a m"
| "step_op (PushPhi i c) m = Ok (pushPhi i c m)"
| "step_op Phi_op m = Ok (phi m)"
| "step_op (Abort e) m = Ok (abort e m)"
| "step_op (Assign xs) m = Ok (m\<lparr>locals := xs\<rparr>)"
| "step_op Tick_sm m = tick_sm m"

fun exec_sm :: "sm_op list \<Rightarrow> StateMachine \<Rightarrow> StateMachine" where
  "exec_sm [] m = m"
| "exec_sm (x # xs) m = exec_sm xs (state_of (step_op x m))"

text \<open>How many times the final callback has been called.\<close>

fun is_FinalCallback :: "event \<Rightarrow> bool" where
  "is_FinalCallback (FinalCallback a) = True"
| "is_FinalCallback _ = False"

definition final_calls :: "StateMachine \<Rightarrow> nat" where
  "final_calls m = length (filter is_FinalCallback (trace m))"


text \<open>
  A task with a catch block at step 5 guarding the block at step 2, whose block has
  failed with an error and whose catch block has been entered.
\<close>

definition in_catch :: StateMachine where
  "in_catch =
     exec_sm [PushErrorStep 5 2, Tick_sm, Callback [Str ''boom''], Tick_sm, Tick_sm]
       (new_StateMachine True False)"

text \<open>The final callback has been called once on a finished task that has one, and never otherwise.\<close>

definition once :: "bool \<Rightarrow> StateMachine \<Rightarrow> bool" where
  "once c m \<longleftrightarrow>
     finalCallback m = c \<and> final_calls m = (if isFinished (state m) \<and> c then 1 else 0)"

text \<open>What \<open>once\<close> reads of a task.\<close>

definition key :: "StateMachine \<Rightarrow> bool \<times> nat \<times> bool" where
  "key m = (finalCallback m, final_calls m, isFinished (state m))"

text \<open>Structures to resolve: \<^verbatim>\<open>[ch, 5]\<close>, \<^verbatim>\<open>[ch]\<close> and \<^verbatim>\<open>{a: {b: ch0}, c: ch1}\<close>.\<close>

definition mixed_array :: state where
  "mixed_array = snd (new_array [Chan (Base 0), Num 5] init)"

definition channel_array :: state where
  "channel_array = snd (new_array [Chan (Base 0)] init)"

definition nested_object :: state where
  "nested_object =
     snd (new_object [(''a'', Ref 0), (''c'', Chan (Base 1))]
       (snd (new_object [(''b'', Chan (Base 0))] init)))"

text \<open>Going on after a call that returned: with turns of the event loop, or with a \<^verbatim>\<open>put\<close>.\<close>

fun then_run :: "nat \<Rightarrow> nat \<Rightarrow> (state, state) result option \<Rightarrow> (state, state) result option" where
  "then_run d n (Some (Ok s)) = run d n s"
| "then_run d n r = r"

fun then_put :: "chan \<Rightarrow> val \<Rightarrow> (state, state) result option \<Rightarrow> (state, state) result option" where
  "then_put c v (Some (Ok s)) = put c v None s"
| "then_put c v r = r"

text \<open>
  A property of states that the five ways of changing the queues and the scheduled calls
  keep, for callbacks that satisfy \<open>G\<close>.
\<close>


definition preserved :: "(cb option \<Rightarrow> bool) \<Rightarrow> (state \<Rightarrow> bool) \<Rightarrow> bool" where
  "preserved G P \<longleftrightarrow>
     G None \<and>
     (\<forall>s v c. P s \<longrightarrow> G c \<longrightarrow> P (sendValue v c s)) \<and>
     (\<forall>s e c. P s \<longrightarrow> G c \<longrightarrow> P (sendError e c s)) \<and>
     (\<forall>s b c. P s \<longrightarrow> G c \<longrightarrow> P (Channel_take b c s)) \<and>
     (\<forall>s b v c. P s \<longrightarrow> G c \<longrightarrow> P (Channel_put b v c s)) \<and>
     (\<forall>s this N. P s \<longrightarrow> P (state_of (bufferedTake_release this N s)))"

definition user_cb :: "cb option \<Rightarrow> bool" where
  "user_cb c = (case c of None \<Rightarrow> True | Some k \<Rightarrow> is_User k)"

text \<open>Every callback held by the state is a callback of the user.\<close>

definition user_only :: "state \<Rightarrow> bool" where
  "user_only s \<longleftrightarrow>
     list_all (\<lambda>t. is_User (task_callback t)) (ticks s) \<and>
     (\<forall>b. list_all (\<lambda>q. user_cb (cbv_callback q)) (queue (chans s b)) \<and>
          list_all is_User (pending (chans s b)))"

text \<open>At least one of the two queues of every base channel is empty.\<close>

definition one_empty :: "state \<Rightarrow> bool" where
  "one_empty s \<longleftrightarrow> (\<forall>b. queue (chans s b) = [] \<or> pending (chans s b) = [])"

text \<open>Operations on base channels only: \<^verbatim>\<open>put\<close>, \<^verbatim>\<open>take\<close>, and turns of the event loop.\<close>

fun base_op :: "op \<Rightarrow> bool" where
  "base_op (Put (Base b) v a) = True"
| "base_op (Take (Base b) a) = True"
| "base_op Tick = True"
| "base_op x = False"

text \<open>No object above a channel object in its prototype chain has been filled.\<close>

fun ancestors_unfilled :: "state \<Rightarrow> chan \<Rightarrow> bool" where
  "ancestors_unfilled s (Base b) = True"
| "ancestors_unfilled s (Wrap i k N p) = (filled s p = None \<and> ancestors_unfilled s p)"

text \<open>The buffer lengths of a channel object and of the objects above it are not negative.\<close>

fun lengths_nonneg :: "chan \<Rightarrow> bool" where
  "lengths_nonneg (Base b) = True"
| "lengths_nonneg (Wrap i k N p) = (0 \<le> N \<and> lengths_nonneg p)"

text \<open>The calls scheduled for parked takers that are given a value.\<close>

definition deliveries :: "val \<Rightarrow> cb list \<Rightarrow> task list" where
  "deliveries v ps = map (\<lambda>p. \<lparr> task_callback = p, task_err = Null, task_value = v \<rparr>) ps"

text \<open>A new base channel with two parked takers.\<close>

definition two_takers :: state where
  "two_takers = init\<lparr>chans := (chans init)(0 := \<lparr> queue = [], pending = [User 0, User 1] \<rparr>)\<rparr>"

text \<open>
  The state in which \<^verbatim>\<open>stream(array, ack)\<close> and \<^verbatim>\<open>takeN(N, cb)\<close> on the base channel
  \<open>b\<close> have exchanged \<open>k - 1\<close> elements of \<open>xs\<close> and the calls for the \<open>k\<close>-th are
  scheduled; \<^verbatim>\<open>i\<close> and \<^verbatim>\<open>group\<close> were made in the state \<open>s\<close>.
\<close>

definition exchanging ::
  "state \<Rightarrow> nat \<Rightarrow> nat \<Rightarrow> cb option \<Rightarrow> cb option \<Rightarrow> int \<Rightarrow> val list \<Rightarrow> nat \<Rightarrow> state" where
  "exchanging s array b ack cbk N xs k =
     s\<lparr>nvars := Suc (nvars s), nheap := Suc (nheap s),
       vars := (vars s)(nvars s := int k),
       heap := (heap s)(nheap s := HArr (take (k - 1) xs)),
       chans := (chans s)(b := \<lparr> queue = [], pending = [] \<rparr>),
       ticks := [\<lparr> task_callback = StreamNext (nvars s) array (Base b) ack,
                   task_err = Null, task_value = xs ! (k - 1) \<rparr>,
                 \<lparr> task_callback = TakeNReceive (nheap s) N (Base b) cbk,
                   task_err = Null, task_value = xs ! (k - 1) \<rparr>]\<rparr>"

text \<open>Going on after a call that returned, with \<^verbatim>\<open>takeN\<close> or with \<^verbatim>\<open>stream\<close>.\<close>

fun then_takeN ::
  "chan \<Rightarrow> int \<Rightarrow> cb option \<Rightarrow> (state, state) result option \<Rightarrow> (state, state) result option" where
  "then_takeN c N cbk (Some (Ok s)) = Some (takeN c N cbk s)"
| "then_takeN c N cbk r = r"

fun then_stream ::
  "nat \<Rightarrow> chan \<Rightarrow> nat \<Rightarrow> cb option \<Rightarrow> (state, state) result option \<Rightarrow> (state, state) result option" where
  "then_stream d c array cbk (Some (Ok s)) = stream d c array cbk s"
| "then_stream d c array cbk r = r"

text \<open>New channels and the arrays \<^verbatim>\<open>[]\<close>, \<^verbatim>\<open>[1, null, 2]\<close> and \<^verbatim>\<open>[1, 2, 3]\<close>.\<close>

definition empty_array :: state where
  "empty_array = snd (new_array [] init)"

definition array_with_null :: state where
  "array_with_null = snd (new_array [Num 1, Null, Num 2] init)"

definition array_123 :: state where
  "array_123 = snd (new_array [Num 1, Num 2, Num 3] init)"

text \<open>
  The state after \<^verbatim>\<open>w = ch.buffer(2); w.fill(9); ch.put(1)\<close> on a new channel \<^verbatim>\<open>ch\<close>:
  \<^verbatim>\<open>fill\<close> has been called on the wrapper, and the value is parked in the queue it shares with \<^verbatim>\<open>ch\<close>.
\<close>

definition filled_buffer :: state where
  "filled_buffer =
     init\<lparr>filled := (filled init)(Wrap 0 Buffered 2 (Base 0) \<mapsto> Num 9),
          chans := (chans init)(0 :=
            \<lparr> queue = [\<lparr> cbv_callback = None, cbv_value = Num 1 \<rparr>], pending = [] \<rparr>)\<rparr>"

text \<open>
  Where a user callback \<open>a\<close> is: how many times it has been called, how many calls of
  it are scheduled, and how many values parked on the base channel \<open>b\<close> carry it.
\<close>

definition n_calls :: "nat \<Rightarrow> state \<Rightarrow> nat" where
  "n_calls a s = length (filter (\<lambda>x. call_id x = a) (calls s))"

definition n_ticks :: "nat \<Rightarrow> state \<Rightarrow> nat" where
  "n_ticks a s = length (filter (\<lambda>t. task_callback t = User a) (ticks s))"

definition n_parked :: "nat \<Rightarrow> state \<Rightarrow> nat \<Rightarrow> nat" where
  "n_parked a s b = length (filter (\<lambda>q. cbv_callback q = Some (User a)) (queue (chans s b)))"

text \<open>
  The callback \<open>a\<close> is in \<open>n\<close> places in all, it is parked nowhere but on \<open>b\<close> and
  is no parked taker; its calls, made or scheduled, have the arguments \<open>E\<close>; a value
  parked with it is \<open>v\<close>, and then \<open>E\<close> is \<^verbatim>\<open>(null, v)\<close>.
\<close>

definition ack_inv :: "nat \<Rightarrow> val \<times> val \<Rightarrow> val \<Rightarrow> nat \<Rightarrow> nat \<Rightarrow> state \<Rightarrow> bool" where
  "ack_inv a E v b n s \<longleftrightarrow>
     n_calls a s + n_ticks a s + n_parked a s b = n \<and>
     (\<forall>b'. b' \<noteq> b \<longrightarrow> n_parked a s b' = 0) \<and>
     (\<forall>b'. User a \<notin> set (pending (chans s b'))) \<and>
     (\<forall>x \<in> set (calls s). call_id x = a \<longrightarrow> (call_err x, call_value x) = E) \<and>
     (\<forall>t \<in> set (ticks s). task_callback t = User a \<longrightarrow> (task_err t, task_value t) = E) \<and>
     (\<forall>q \<in> set (queue (chans s b)).
        cbv_callback q = Some (User a) \<longrightarrow> cbv_value q = v \<and> E = (Null, v))"

text \<open>
  The arguments with which the callback of \<^verbatim>\<open>put(v, ack)\<close> on the channel object \<open>c\<close>
  is called, read off the state in which \<^verbatim>\<open>put\<close> is called: \<^verbatim>\<open>('filled', null)\<close> on
  a filled object, \<^verbatim>\<open>(null, null)\<close> from a \<^verbatim>\<open>droppingBuffer\<close> that is full, what the
  wrapped object answers from a \<^verbatim>\<open>buffer\<close> that is full, and \<^verbatim>\<open>(null, v)\<close> otherwise.
\<close>

fun ack_args :: "state \<Rightarrow> chan \<Rightarrow> val \<Rightarrow> val \<times> val" where
  "ack_args s (Base b) v =
     (if filled s (Base b) \<noteq> None then (Str ''filled'', Null) else (Null, v))"
| "ack_args s (Wrap i k N p) v =
     (if filled s (Wrap i k N p) \<noteq> None then (Str ''filled'', Null)
      else if backlog s (Wrap i k N p) < N then (Null, v)
      else (case k of
              Buffered \<Rightarrow> ack_args s p v
            | Dropping \<Rightarrow> (Null, Null)
            | Expiring \<Rightarrow> (Null, v)))"

text \<open>The callback that an operation passes to the library.\<close>

fun op_cb :: "op \<Rightarrow> nat option" where
  "op_cb (Put c v a) = a"
| "op_cb (Take c a) = a"
| "op_cb x = None"

section \<open>Properties of the base channel\<close>

lemmas prim_defs =
  Channel_take_def Channel_put_def sendValue_def sendError_def nextTick_def set_chan_def Let_def

lemma sendValue_None [simp]: "sendValue v None s = s"
  by (simp add: sendValue_def)

lemma sendError_None [simp]: "sendError e None s = s"
  by (simp add: sendError_def)

lemma take_none_base:
  assumes "filled s (Base b) = None"
  shows "take_ch (Base b) None s =
     Ok (case queue (chans s b) of
           [] \<Rightarrow> s
         | q # qs \<Rightarrow> s\<lparr>chans := (chans s)(b := (chans s b)\<lparr>queue := qs\<rparr>),
                         ticks := ticks s @ ack_task q\<rparr>)"
  using assms by (simp add: prim_defs ack_task_def split: list.splits option.splits)

lemma take_none_backlog:
  assumes "filled s (Base b) = None" "queue (chans s b) \<noteq> []"
  shows "backlog (state_of (take_ch (Base b) None s)) (Base b) = backlog s (Base b) - 1"
    and "filled (state_of (take_ch (Base b) None s)) = filled s"
  using assms by (auto simp add: prim_defs backlog_def split: list.splits option.splits)

lemma expiringPut_loop_base:
  assumes "filled s (Base b) = None" "filled s (Wrap i Expiring N (Base b)) = None" "1 \<le> N"
  shows "expiringPut_loop (Wrap i Expiring N (Base b)) N s =
     Some (Ok (((\<lambda>s. state_of (take_ch (Base b) None s)) ^^ nat (backlog s (Base b) - N + 1)) s))"
proof -
  define f where "f = (\<lambda>s. state_of (take_ch (Base b) None s))"
  define w where "w = Wrap i Expiring N (Base b)"
  have "expiringPut_loop w N s = Some (Ok ((f ^^ nat (backlog s (Base b) - N + 1)) s))"
    using assms(1,2)
  proof (induction "nat (backlog s (Base b) - N + 1)" arbitrary: s)
    case 0
    then have "backlog s w < N" by (simp add: backlog_def w_def)
    with 0 show ?case by (subst expiringPut_loop.simps) simp
  next
    case (Suc m)
    from Suc.hyps(2) have ge: "N \<le> backlog s w" by (simp add: backlog_def w_def)
    with assms(3) have ne: "queue (chans s b) \<noteq> []" by (auto simp: backlog_def w_def)
    have t: "take_ch w None s = Ok (f s)" using Suc.prems by (simp add: f_def w_def)
    have bl: "backlog (f s) (Base b) = backlog s (Base b) - 1" and fl: "filled (f s) = filled s"
      using take_none_backlog[OF Suc.prems(1) ne] by (simp_all add: f_def)
    have m: "m = nat (backlog (f s) (Base b) - N + 1)" using Suc.hyps(2) bl by simp
    have "expiringPut_loop w N s = expiringPut_loop w N (f s)"
      using ge t by (subst expiringPut_loop.simps) simp
    also have "\<dots> = Some (Ok ((f ^^ m) (f s)))"
      using Suc.hyps(1)[OF m] Suc.prems fl m by (simp add: w_def)
    finally show ?case
      unfolding Suc.hyps(2)[symmetric] by (simp add: funpow_swap1)
  qed
  then show ?thesis by (simp add: f_def w_def)
qed

text \<open>
  C9. On a base channel on which \<^verbatim>\<open>fill\<close> has not been called, \<^verbatim>\<open>take()\<close> without
  a callback does nothing when no value is parked; otherwise it removes the oldest parked
  value and schedules its producer's callback, if it has one, with \<^verbatim>\<open>(null, value)\<close>;
  no taker is parked. The loop of \<^verbatim>\<open>expiringPut\<close> on an \<^verbatim>\<open>expiringBuffer(N)\<close>
  of that channel, \<open>N \<ge> 1\<close>, is that take repeated \<open>backlog - N + 1\<close> times.
\<close>

theorem take_without_callback:
  assumes "filled s (Base b) = None" "filled s (Wrap i Expiring N (Base b)) = None" "1 \<le> N"
  shows "take_ch (Base b) None s =
           Ok (case queue (chans s b) of
                 [] \<Rightarrow> s
               | q # qs \<Rightarrow> s\<lparr>chans := (chans s)(b := (chans s b)\<lparr>queue := qs\<rparr>),
                               ticks := ticks s @ ack_task q\<rparr>)
         \<and> expiringPut_loop (Wrap i Expiring N (Base b)) N s =
           Some (Ok (((\<lambda>s. state_of (take_ch (Base b) None s))
                        ^^ nat (backlog s (Base b) - N + 1)) s))"
  using take_none_base[OF assms(1)] expiringPut_loop_base[OF assms] by simp

theorem take_without_callback_witness:
  "take_ch (Base 0) None two_parked =
     Ok (two_parked\<lparr>chans := (chans two_parked)(0 :=
           \<lparr> queue = [\<lparr> cbv_callback = None, cbv_value = Num 20 \<rparr>], pending = [] \<rparr>),
         ticks := [\<lparr> task_callback = User 1, task_err = Null, task_value = Num 10 \<rparr>]\<rparr>)
   \<and> expiringPut_loop (Wrap 1 Expiring 2 (Base 0)) 2 two_parked =
     Some (Ok (two_parked\<lparr>chans := (chans two_parked)(0 :=
           \<lparr> queue = [\<lparr> cbv_callback = None, cbv_value = Num 20 \<rparr>], pending = [] \<rparr>),
         ticks := [\<lparr> task_callback = User 1, task_err = Null, task_value = Num 10 \<rparr>]\<rparr>))"
  using take_without_callback[of two_parked 0 1 2]
  by (simp add: two_parked_def init_def ack_task_def backlog_def prim_defs)

lemma run_users:
  "list_all (\<lambda>t. is_User (task_callback t)) (ticks s) \<Longrightarrow>
   run d (length (ticks s)) s = Some (Ok (s\<lparr>ticks := [], calls := calls s @ concat (map call_of (ticks s))\<rparr>))"
proof (induction "ticks s" arbitrary: s)
  case Nil
  then have "ticks s = []" by simp
  then show ?case by simp
next
  case (Cons t ts)
  then have ts: "ticks s = t # ts" by simp
  with Cons.prems obtain n where n: "task_callback t = User n"
    by (auto simp: is_User_def split: cb.splits)
  let ?s1 = "s\<lparr>ticks := ts, calls := calls s @ call_of t\<rparr>"
  have 1: "tick d s = Some (Ok ?s1)"
    using ts n by (simp add: tick_def)
  have 2: "ts = ticks ?s1" by simp
  have 3: "list_all (\<lambda>t. is_User (task_callback t)) (ticks ?s1)"
    using Cons.prems ts by simp
  have "run d (length (ticks s)) s = run d (length ts) ?s1"
    using ts 1 by simp
  also have "\<dots> = Some (Ok (?s1\<lparr>ticks := [], calls := calls ?s1 @ concat (map call_of (ticks ?s1))\<rparr>))"
    using Cons.hyps(1)[OF 2 3] by simp
  finally show ?case using ts by simp
qed

text \<open>
  C3, as stated, fails: when a \<^verbatim>\<open>take\<close> and a \<^verbatim>\<open>put\<close> pair up on a new channel, in
  either order, the producer's callback (1) is called before the taker's callback (0).
\<close>

theorem ack_after_taker_counterexample:
  "map_option calls
     (exec 0 [Take (Base 0) (Some 0), Put (Base 0) (Num 7) (Some 1), Tick, Tick] init) =
     Some [\<lparr> call_id = 1, call_err = Null, call_value = Num 7 \<rparr>,
           \<lparr> call_id = 0, call_err = Null, call_value = Num 7 \<rparr>]
   \<and> map_option calls
     (exec 0 [Put (Base 0) (Num 7) (Some 1), Take (Base 0) (Some 0), Tick, Tick] init) =
     Some [\<lparr> call_id = 1, call_err = Null, call_value = Num 7 \<rparr>,
           \<lparr> call_id = 0, call_err = Null, call_value = Num 7 \<rparr>]"
  by (simp add: init_def prim_defs tick_def)

text \<open>
  C3, amended. When \<^verbatim>\<open>put(v, ack)\<close> meets a parked taker, or \<^verbatim>\<open>take(cb)\<close> meets a
  parked value, on a base channel, no callback is called by the operation itself: the
  producer's \<^verbatim>\<open>ack(null, v)\<close> and then the taker's \<^verbatim>\<open>cb(null, v)\<close> are added at the
  end of the queue of scheduled calls, and the event loop calls them in that order, after
  the calls scheduled before them.
\<close>

theorem pairing_deferred_ack_first:
  assumes "filled s (Base b) = None" "pending (chans s b) = User t # ps"
      and "list_all (\<lambda>t. is_User (task_callback t)) (ticks s)"
      and "filled r (Base b) = None"
      and "queue (chans r b) = \<lparr> cbv_callback = Some (User a), cbv_value = v \<rparr> # qs"
      and "list_all (\<lambda>t. is_User (task_callback t)) (ticks r)"
  shows "put (Base b) v (Some (User a)) s =
           Some (Ok (s\<lparr>chans := (chans s)(b := (chans s b)\<lparr>pending := ps\<rparr>),
                      ticks := ticks s @ [\<lparr> task_callback = User a, task_err = Null, task_value = v \<rparr>,
                                          \<lparr> task_callback = User t, task_err = Null, task_value = v \<rparr>]\<rparr>))
       \<and> run d (length (ticks s) + 2) (state_of (the (put (Base b) v (Some (User a)) s))) =
           Some (Ok (s\<lparr>chans := (chans s)(b := (chans s b)\<lparr>pending := ps\<rparr>), ticks := [],
                      calls := calls s @ concat (map call_of (ticks s)) @
                        [\<lparr> call_id = a, call_err = Null, call_value = v \<rparr>,
                         \<lparr> call_id = t, call_err = Null, call_value = v \<rparr>]\<rparr>))
       \<and> take_ch (Base b) (Some (User t)) r =
           Ok (r\<lparr>chans := (chans r)(b := (chans r b)\<lparr>queue := qs\<rparr>),
                ticks := ticks r @ [\<lparr> task_callback = User a, task_err = Null, task_value = v \<rparr>,
                                    \<lparr> task_callback = User t, task_err = Null, task_value = v \<rparr>]\<rparr>)
       \<and> run d (length (ticks r) + 2) (state_of (take_ch (Base b) (Some (User t)) r)) =
           Some (Ok (r\<lparr>chans := (chans r)(b := (chans r b)\<lparr>queue := qs\<rparr>), ticks := [],
                      calls := calls r @ concat (map call_of (ticks r)) @
                        [\<lparr> call_id = a, call_err = Null, call_value = v \<rparr>,
                         \<lparr> call_id = t, call_err = Null, call_value = v \<rparr>]\<rparr>))"
proof -
  let ?A = "\<lparr> task_callback = User a, task_err = Null, task_value = v \<rparr>"
  let ?T = "\<lparr> task_callback = User t, task_err = Null, task_value = v \<rparr>"
  let ?s' = "s\<lparr>chans := (chans s)(b := (chans s b)\<lparr>pending := ps\<rparr>), ticks := ticks s @ [?A, ?T]\<rparr>"
  let ?r' = "r\<lparr>chans := (chans r)(b := (chans r b)\<lparr>queue := qs\<rparr>), ticks := ticks r @ [?A, ?T]\<rparr>"
  have p: "put (Base b) v (Some (User a)) s = Some (Ok ?s')"
    using assms(1,2) by (simp add: prim_defs)
  have t: "take_ch (Base b) (Some (User t)) r = Ok ?r'"
    using assms(4,5) by (simp add: prim_defs)
  have us: "list_all (\<lambda>t. is_User (task_callback t)) (ticks ?s')"
    using assms(3) by (simp add: is_User_def)
  have ur: "list_all (\<lambda>t. is_User (task_callback t)) (ticks ?r')"
    using assms(6) by (simp add: is_User_def)
  have rs: "run d (length (ticks s) + 2) ?s' =
      Some (Ok (?s'\<lparr>ticks := [], calls := calls ?s' @ concat (map call_of (ticks ?s'))\<rparr>))"
    using run_users[OF us, of d] by simp
  have rr: "run d (length (ticks r) + 2) ?r' =
      Some (Ok (?r'\<lparr>ticks := [], calls := calls ?r' @ concat (map call_of (ticks ?r'))\<rparr>))"
    using run_users[OF ur, of d] by simp
  show ?thesis
    unfolding p t using rs rr by simp
qed

theorem pairing_deferred_ack_first_witness:
  "map_option (\<lambda>r. calls (state_of r)) (put (Base 0) (Num 7) (Some (User 1)) parked_taker) = Some []
   \<and> map_option (\<lambda>r. calls (state_of r))
       (run 0 2 (state_of (the (put (Base 0) (Num 7) (Some (User 1)) parked_taker)))) =
     Some [\<lparr> call_id = 1, call_err = Null, call_value = Num 7 \<rparr>,
           \<lparr> call_id = 0, call_err = Null, call_value = Num 7 \<rparr>]
   \<and> calls (state_of (take_ch (Base 0) (Some (User 0)) parked_value)) = []
   \<and> map_option (\<lambda>r. calls (state_of r))
       (run 0 2 (state_of (take_ch (Base 0) (Some (User 0)) parked_value))) =
     Some [\<lparr> call_id = 1, call_err = Null, call_value = Num 7 \<rparr>,
           \<lparr> call_id = 0, call_err = Null, call_value = Num 7 \<rparr>]"
  using pairing_deferred_ack_first[of parked_taker 0 0 "[]" parked_value 1 "Num 7" "[]" 0]
  by (simp add: parked_taker_def parked_value_def init_def prim_defs tick_def is_User_def numeral_2_eq_2)

section \<open>Properties of the task runtime\<close>

lemmas sm_defs =
  goTo_def start_def performAbort_def step_sm_def thenTo_def thenTo_call_def
  thenToWithErr_call_def callback_def windTo_def push_def beginCleanup_def
  pushCleanupAction_def pushCleanupStep_def pushErrorStep_def phi_def pushPhi_def
  abort_def nextTick_sm_def emit_def restoreStateVars_def Let_def

lemma once_key: "key m' = key m \<Longrightarrow> once c m' = once c m"
  by (auto simp: once_def key_def)

lemma key_simps [simp]:
  "key (goTo i m) = key m"
  "key (windTo i m) = key m"
  "key (nextTick_sm t m) = key m"
  "key (push r m) = key m"
  "key (phi m) = key m"
  "key (callback a m) = key m"
  "key (abort e m) = key m"
  "key (start m) = key m"
  "key (step_sm m) = key m"
  "key (performAbort m) = key m"
  "key (snd (thenTo m)) = key m"
  "key (thenTo_call k j a m) = key m"
  "key (thenToWithErr_call k j a m) = key m"
  "key (pushCleanupAction f m) = key m"
  "key (pushCleanupStep i1 j1 m) = key m"
  "key (pushErrorStep i2 j2 m) = key m"
  "key (pushPhi i3 b m) = key m"
  "key (emit (CleanupFn f) m) = key m"
  "key (emit (OnErrorHook e) m) = key m"
  "key (state_of (restoreStateVars st m)) = key m"
  "key (state_of (beginCleanup st m)) = key m"
  "key (state_of (retry a m)) = key m"
  "key (m\<lparr>locals := xs\<rparr>) = key m"
  "key (m\<lparr>scheduled := ts\<rparr>) = key m"
  by (simp_all add: key_def final_calls_def sm_defs retry_def split: option.splits)

lemma key_state [simp]:
  "isFinished st = isFinished (state m) \<Longrightarrow> key (m\<lparr>state := st\<rparr>) = key m"
  by (simp add: key_def final_calls_def)

lemma unwind_empty:
  "unwinding (state m) = [] \<Longrightarrow>
   unwind m =
     (if \<not> isFinished (state m) then
        (let m1 = m\<lparr>state := (state m)\<lparr>waiting := 0, isFinished := True\<rparr>\<rparr> in
         Ok (if finalCallback m1 then emit (FinalCallback (args (state m1))) m1 else m1))
      else Ok m)"
  by (subst unwind.simps) simp

lemma unwind_restore:
  "unwinding (state m) \<noteq> [] \<Longrightarrow> u_restoreState (last (unwinding (state m))) = Some xs \<Longrightarrow>
   unwind m =
     unwind (m\<lparr>state := (state m)\<lparr>unwinding := butlast (unwinding (state m)),
                                  isUnwinding := True\<rparr>, locals := xs\<rparr>)"
  by (subst unwind.simps) (simp add: restoreStateVars_def Let_def)

lemma unwind_other:
  "unwinding (state m) \<noteq> [] \<Longrightarrow> u_restoreState (last (unwinding (state m))) = None \<Longrightarrow>
   key (state_of (unwind m)) = key m"
proof -
  assume a: "unwinding (state m) \<noteq> []" "u_restoreState (last (unwinding (state m))) = None"
  let ?w = "last (unwinding (state m))"
  let ?m1 = "m\<lparr>state := (state m)\<lparr>unwinding := butlast (unwinding (state m)),
                                  isUnwinding := True\<rparr>\<rparr>"
  have k: "key ?m1 = key m" by simp
  have b: "key (state_of (case beginCleanup (u_state ?w) ?m1 of
                 Ok m2 \<Rightarrow> Ok (goTo (u_step ?w) m2) | Throw e m2 \<Rightarrow> Throw e m2)) = key m"
    using key_simps(21)[of "u_state ?w" ?m1]
    by (cases "beginCleanup (u_state ?w) ?m1") simp_all
  show ?thesis
    using a b by (subst unwind.simps) (simp add: Let_def split: option.splits)
qed

lemma unwind_once: "once c m \<Longrightarrow> once c (state_of (unwind m))"
proof (induction "length (unwinding (state m))" arbitrary: m)
  case 0
  then have "unwinding (state m) = []" by simp
  then show ?case using "0.prems"
    by (auto simp add: unwind_empty once_def final_calls_def emit_def Let_def)
next
  case (Suc n)
  from Suc.hyps(2) have ne: "unwinding (state m) \<noteq> []" by auto
  show ?case
  proof (cases "u_restoreState (last (unwinding (state m)))")
    case None
    have "once c (state_of (unwind m)) = once c m"
      by (rule once_key[OF unwind_other[OF ne None]])
    then show ?thesis using Suc.prems by blast
  next
    case (Some xs)
    let ?m2 = "m\<lparr>state := (state m)\<lparr>unwinding := butlast (unwinding (state m)),
                                  isUnwinding := True\<rparr>, locals := xs\<rparr>"
    have "key ?m2 = key m" by (simp add: key_def final_calls_def)
    then have o: "once c ?m2" using Suc.prems by (simp add: once_def key_def)
    have n: "n = length (unwinding (state ?m2))" using Suc.hyps(2) by simp
    show ?thesis using Suc.hyps(1)[OF n o] unwind_restore[OF ne Some] by simp
  qed
qed

lemma tick_sm_once: "once c m \<Longrightarrow> once c (state_of (tick_sm m))"
proof -
  assume o: "once c m"
  show ?thesis
  proof (cases "scheduled m")
    case Nil
    then show ?thesis using o by (simp add: tick_sm_def)
  next
    case (Cons t ts)
    have o': "once c (m\<lparr>scheduled := ts\<rparr>)" using o once_key[of "m\<lparr>scheduled := ts\<rparr>" m] by simp
    show ?thesis
    proof (cases t)
      case BoundUnwind
      then show ?thesis using Cons unwind_once[OF o'] by (simp add: tick_sm_def)
    next
      case BoundStep
      then show ?thesis using Cons o' once_key[of "step_sm (m\<lparr>scheduled := ts\<rparr>)" "m\<lparr>scheduled := ts\<rparr>"]
        by (simp add: tick_sm_def)
    next
      case (OnError e)
      then show ?thesis using Cons o'
          once_key[of "emit (OnErrorHook e) (m\<lparr>scheduled := ts\<rparr>)" "m\<lparr>scheduled := ts\<rparr>"]
        by (simp add: tick_sm_def)
    qed
  qed
qed

lemma step_op_key: "x \<noteq> Tick_sm \<Longrightarrow> key (state_of (step_op x m)) = key m"
  by (cases x) simp_all

lemma step_op_once: "once c m \<Longrightarrow> once c (state_of (step_op x m))"
proof (cases "x = Tick_sm")
  case True
  assume "once c m"
  then show ?thesis using True tick_sm_once by simp
next
  case False
  assume "once c m"
  then show ?thesis using once_key[OF step_op_key[OF False]] by simp
qed

lemma exec_sm_once: "once c m \<Longrightarrow> once c (exec_sm ops m)"
  by (induction ops arbitrary: m) (simp_all add: step_op_once)

text \<open>
  C7, as stated, fails for a task that does not finish: a task that was started, whose
  first step asked for a callback with \<^verbatim>\<open>thenTo\<close> and waits for it, has nothing
  scheduled and has not called its final callback.
\<close>

theorem final_callback_counterexample:
  "final_calls (exec_sm [Start, Tick_sm, ThenTo] (new_StateMachine True False)) = 0
   \<and> scheduled (exec_sm [Start, Tick_sm, ThenTo] (new_StateMachine True False)) = []
   \<and> waiting (state (exec_sm [Start, Tick_sm, ThenTo] (new_StateMachine True False))) = 1"
  by (simp add: new_StateMachine_def new_State_def final_calls_def tick_sm_def start_def
        goTo_def nextTick_sm_def step_sm_def emit_def thenTo_def Let_def)

text \<open>
  C7, amended. Whatever is done to a task, its final callback has been called once if
  the task is finished and has a final callback, and not at all otherwise; so it is
  never called twice. \<^verbatim>\<open>unwind\<close> on an empty stack calls it exactly when
  \<^verbatim>\<open>isFinished\<close> is still false, with \<^verbatim>\<open>isFinished\<close> set, and does nothing on a
  finished task.
\<close>

theorem final_callback_once:
  "final_calls (exec_sm ops (new_StateMachine c hook)) =
     (if isFinished (state (exec_sm ops (new_StateMachine c hook))) \<and> c then 1 else 0)
   \<and> unwind (m\<lparr>state := (state m)\<lparr>unwinding := [], isFinished := False\<rparr>, finalCallback := True\<rparr>) =
       Ok (m\<lparr>state := (state m)\<lparr>unwinding := [], isFinished := True, waiting := 0\<rparr>,
             finalCallback := True, trace := trace m @ [FinalCallback (args (state m))]\<rparr>)
   \<and> unwind (m\<lparr>state := (state m)\<lparr>unwinding := [], isFinished := True\<rparr>\<rparr>) =
       Ok (m\<lparr>state := (state m)\<lparr>unwinding := [], isFinished := True\<rparr>\<rparr>)"
proof -
  have "once c (new_StateMachine c hook)"
    by (simp add: once_def new_StateMachine_def new_State_def final_calls_def)
  then have "once c (exec_sm ops (new_StateMachine c hook))" by (rule exec_sm_once)
  then have 1: "final_calls (exec_sm ops (new_StateMachine c hook)) =
     (if isFinished (state (exec_sm ops (new_StateMachine c hook))) \<and> c then 1 else 0)"
    by (simp add: once_def)
  have 2: "unwind (m\<lparr>state := (state m)\<lparr>unwinding := [], isFinished := False\<rparr>, finalCallback := True\<rparr>) =
       Ok (m\<lparr>state := (state m)\<lparr>unwinding := [], isFinished := True, waiting := 0\<rparr>,
             finalCallback := True, trace := trace m @ [FinalCallback (args (state m))]\<rparr>)"
    by (subst unwind.simps) (simp add: emit_def)
  have 3: "unwind (m\<lparr>state := (state m)\<lparr>unwinding := [], isFinished := True\<rparr>\<rparr>) =
       Ok (m\<lparr>state := (state m)\<lparr>unwinding := [], isFinished := True\<rparr>\<rparr>)"
    by (subst unwind.simps) simp
  show ?thesis using 1 2 3 by blast
qed


text \<open>
  C6. \<^verbatim>\<open>retry\<close> throws, leaving the task as it is, when \<^verbatim>\<open>currentErrorStep\<close> is null.
  Otherwise it inserts into the unwind stack, at the \<^verbatim>\<open>unwindPoint\<close> saved in the
  handler's record, that record and then a record \<^verbatim>\<open>{retry: retryStep}\<close>; it clears
  \<^verbatim>\<open>currentErrorStep\<close> and \<^verbatim>\<open>err\<close>, sets \<^verbatim>\<open>args\<close> to null followed by its
  arguments and \<^verbatim>\<open>strict_unwind\<close> to true, and schedules \<^verbatim>\<open>unwind\<close>.
\<close>

theorem retry_protocol:
  assumes "currentErrorStep (state m0) = None"
      and "currentErrorStep (state m) = Some e" "u_unwindPoint e = Some p"
  shows "retry a0 m0 = Throw RetryOutsideCatch m0
       \<and> retry a m =
           Ok (m\<lparr>state := (state m)
                  \<lparr>unwinding := take p (unwinding (state m)) @
                                 [e, no_fields\<lparr>u_retry := u_retryStep e\<rparr>] @
                                 drop p (unwinding (state m)),
                   currentErrorStep := None, args := Null # a, err := Null,
                   strict_unwind := True\<rparr>,
                 scheduled := scheduled m @ [BoundUnwind]\<rparr>)"
  using assms by (simp add: retry_def splice2_def phi_def nextTick_sm_def)

lemma in_catch_eq:
  "in_catch =
     \<lparr> state = \<lparr> state_id = Some 5, args = [Str ''boom''], err = Str ''boom'', unwinding = [],
                 waiting = 0, isFinished = False, isUnwinding = True,
                 currentErrorStep = Some (no_fields\<lparr>u_isError := True, u_step := Some 5,
                                             u_retryStep := Some 2, u_unwindPoint := Some 0\<rparr>),
                 abort_with_error = Null, strict_unwind = False \<rparr>,
       finalCallback = True, onerror = False, locals = [], done_vars = (\<lambda>_. False), ndone = 0,
       scheduled = [],
       trace = [StepFn (Some 2) [Null, Null], StepFn (Some 5) [Str ''boom'']] \<rparr>"
  by (simp add: in_catch_def new_StateMachine_def new_State_def tick_sm_def pushErrorStep_def
        push_def goTo_def nextTick_sm_def step_sm_def emit_def callback_def js_index_def
        unwind.simps no_fields_def Let_def)

theorem retry_protocol_witness:
  "retry [] (new_StateMachine True False) = Throw RetryOutsideCatch (new_StateMachine True False)
   \<and> unwinding (state (state_of (retry [] in_catch))) =
       [no_fields\<lparr>u_isError := True, u_step := Some 5, u_retryStep := Some 2,
                   u_unwindPoint := Some 0\<rparr>,
        no_fields\<lparr>u_retry := Some 2\<rparr>]
   \<and> err (state (state_of (retry [] in_catch))) = Null
   \<and> strict_unwind (state (state_of (retry [] in_catch)))
   \<and> scheduled (state_of (retry [] in_catch)) = [BoundUnwind]
   \<and> state_id (state (state_of (tick_sm (state_of (retry [] in_catch))))) = Some 2
   \<and> unwinding (state (state_of (tick_sm (state_of (retry [] in_catch))))) =
       [no_fields\<lparr>u_isError := True, u_step := Some 5, u_retryStep := Some 2,
                   u_unwindPoint := Some 0\<rparr>]"
  using retry_protocol[of "new_StateMachine True False" in_catch
          "no_fields\<lparr>u_isError := True, u_step := Some 5, u_retryStep := Some 2,
                      u_unwindPoint := Some 0\<rparr>" 0 "[]" "[]"]
  by (simp add: in_catch_eq new_StateMachine_def new_State_def tick_sm_def unwind.simps
        windTo_def goTo_def nextTick_sm_def no_fields_def Let_def)

section \<open>Properties of \<^verbatim>\<open>resolve\<close>\<close>

text \<open>
  C1 fails on the three calls that follow. \<^verbatim>\<open>resolve([ch, 5], false, cb)\<close> on an empty channel \<open>ch\<close>: after the
  first turn of the event loop \<open>cb\<close> has been called with the array, whose first slot
  still holds the channel; a later \<^verbatim>\<open>ch.put(7)\<close> fills the slot and \<open>cb\<close> is not
  called again. \<^verbatim>\<open>resolve([ch], true, cb)\<close> followed by \<^verbatim>\<open>ch.put(7)\<close>: the
  receiver schedules itself again at every turn and \<open>cb\<close> is never called.
  \<^verbatim>\<open>resolve({a: {b: ch0}, c: ch1}, false, cb)\<close> followed by \<^verbatim>\<open>ch1.put(7)\<close> and
  \<^verbatim>\<open>ch0.put(8)\<close>: every slot is resolved, nothing is scheduled and \<open>cb\<close> has not
  been called.
\<close>

theorem resolve_callback_failures:
  "map_option (\<lambda>r. (calls (state_of r), heap (state_of r) 0, ticks (state_of r)))
     (then_run 3 1 (resolve_call 3 (Ref 0) False (Some (User 0)) mixed_array)) =
     Some ([\<lparr> call_id = 0, call_err = Null, call_value = Ref 0 \<rparr>],
           HArr [Chan (Base 0), Num 5], [])
   \<and> map_option (\<lambda>r. (calls (state_of r), heap (state_of r) 0, ticks (state_of r)))
     (then_run 3 5 (then_put (Base 0) (Num 7)
        (then_run 3 1 (resolve_call 3 (Ref 0) False (Some (User 0)) mixed_array)))) =
     Some ([\<lparr> call_id = 0, call_err = Null, call_value = Ref 0 \<rparr>],
           HArr [Num 7, Num 5], [])
   \<and> map_option (\<lambda>r. (calls (state_of r), heap (state_of r) 0, ticks (state_of r)))
     (then_run 3 20 (then_put (Base 0) (Num 7)
        (resolve_call 3 (Ref 0) True (Some (User 0)) channel_array))) =
     Some ([], HArr [Chan (Base 0)],
           [\<lparr> task_callback = ArrayReceiver 0 0 0 True (Some (User 0)),
              task_err = Null, task_value = Num 7 \<rparr>])
   \<and> map_option (\<lambda>r. (calls (state_of r), heap (state_of r) 0, heap (state_of r) 1,
                       ticks (state_of r)))
     (then_run 3 20 (then_put (Base 0) (Num 8) (then_put (Base 1) (Num 7)
        (resolve_call 3 (Ref 1) False (Some (User 0)) nested_object)))) =
     Some ([], HObj [(''b'', Num 8)], HObj [(''a'', Ref 0), (''c'', Num 7)], [])"
  by code_simp

lemma preservedD:
  assumes "preserved G P"
  shows "G None"
    and "\<And>s v c. P s \<Longrightarrow> G c \<Longrightarrow> P (sendValue v c s)"
    and "\<And>s e c. P s \<Longrightarrow> G c \<Longrightarrow> P (sendError e c s)"
    and "\<And>s b c. P s \<Longrightarrow> G c \<Longrightarrow> P (Channel_take b c s)"
    and "\<And>s b v c. P s \<Longrightarrow> G c \<Longrightarrow> P (Channel_put b v c s)"
    and "\<And>s this N. P s \<Longrightarrow> P (state_of (bufferedTake_release this N s))"
  using assms by (simp_all add: preserved_def)

lemma take_ch_preserved:
  assumes "preserved G P"
  shows "P s \<Longrightarrow> G cb \<Longrightarrow> P (state_of (take_ch c cb s))"
proof (induction c cb s rule: take_ch.induct)
  case (1 b callback s)
  then show ?case
    using preservedD(2,4)[OF assms] by (simp split: option.splits)
next
  case (2 i k N p callback s)
  show ?case
  proof (cases "lookup_take s (Wrap i k N p)")
    case (FilledTake v)
    then show ?thesis using 2 preservedD(2)[OF assms] by simp
  next
    case BufferedTake
    then have "P (state_of (take_ch p callback s))" using 2 by simp
    then show ?thesis
      using BufferedTake preservedD(6)[OF assms]
      by (cases "take_ch p callback s") simp_all
  next
    case PrototypeTake
    then show ?thesis using 2 preservedD(4)[OF assms] by simp
  qed
qed

lemma expiringPut_loop_preserved:
  assumes "preserved G P"
  shows "expiringPut_loop this N s = Some r \<Longrightarrow> P s \<Longrightarrow> P (state_of r)"
proof (induction this N s r rule: expiringPut_loop.raw_induct[rotated 1, consumes 1])
  case (1 loop this N s r)
  show ?case
  proof (cases "N \<le> backlog s this")
    case True
    have t: "P (state_of (take_ch this None s))"
      by (rule take_ch_preserved[OF assms 1(3) preservedD(1)[OF assms]])
    show ?thesis
    proof (cases "take_ch this None s")
      case (Ok s')
      with 1(2) True have "loop this N s' = Some r" by simp
      moreover have "P s'" using t Ok by simp
      ultimately show ?thesis using 1(1) by blast
    next
      case (Throw e s')
      with 1(2) True t show ?thesis by auto
    qed
  next
    case False
    with 1(2,3) show ?thesis by auto
  qed
qed

lemma put_preserved:
  assumes "preserved G P"
  shows "origPut c v cb s = Some r \<Longrightarrow> P s \<Longrightarrow> G cb \<Longrightarrow> P (state_of r)"
    and "put c v cb s = Some r \<Longrightarrow> P s \<Longrightarrow> G cb \<Longrightarrow> P (state_of r)"
proof (induction c v cb s and c v cb s arbitrary: r and r rule: origPut_put.induct)
  case (1 b v callback s)
  then show ?case using preservedD(5)[OF assms] by auto
next
  case (2 i N p v callback s)
  show ?case
  proof (cases "backlog s (Wrap i Buffered N p) < N")
    case True
    then obtain r' where r': "put p v None s = Some r'"
      using 2(3) by (auto split: option.splits)
    have "P (state_of r')" using 2(1)[OF True r' 2(4)] preservedD(1)[OF assms] by simp
    then show ?thesis using 2(3,5) True r' preservedD(2)[OF assms]
      by (cases r') auto
  next
    case False
    then show ?thesis using 2 by simp
  qed
next
  case (3 i N p v callback s)
  show ?case
  proof (cases "backlog s (Wrap i Dropping N p) < N")
    case True
    then obtain r' where r': "put p v None s = Some r'"
      using 3(2) by (auto split: option.splits)
    have "P (state_of r')" using 3(1)[OF True r' 3(3)] preservedD(1)[OF assms] by simp
    then show ?thesis using 3(2,4) True r' preservedD(2)[OF assms]
      by (cases r') auto
  next
    case False
    then show ?thesis using 3 preservedD(2)[OF assms] by auto
  qed
next
  case (4 i N p v callback s)
  obtain r1 where r1: "expiringPut_loop (Wrap i Expiring N p) N s = Some r1"
    using 4(2) by (auto split: option.splits)
  have P1: "P (state_of r1)" using expiringPut_loop_preserved[OF assms r1 4(3)] .
  show ?case
  proof (cases r1)
    case (Ok s1)
    then obtain r' where r': "put p v None s1 = Some r'"
      using 4(2) r1 by (auto split: option.splits)
    have "P (state_of r')" using 4(1)[OF r1 Ok r'] P1 Ok preservedD(1)[OF assms] by simp
    then show ?thesis using 4(2,4) r1 Ok r' preservedD(2)[OF assms]
      by (cases r') auto
  next
    case (Throw e s1)
    then show ?thesis using 4(2) r1 P1 by auto
  qed
next
  case (5 b v callback s)
  then show ?case using preservedD(3,5)[OF assms] by (auto split: option.splits)
next
  case (6 i k N p v callback s)
  then show ?case using preservedD(3)[OF assms] by (auto split: option.splits)
qed

lemma fill_loop_preserved:
  assumes "preserved G P"
  shows "fill_loop this v s = Some r \<Longrightarrow> P s \<Longrightarrow> P (state_of r)"
proof (induction this v s r rule: fill_loop.raw_induct[rotated 1, consumes 1])
  case (1 loop this v s r)
  show ?case
  proof (cases "backlog s this < 0")
    case True
    then obtain r1 where r1: "origPut this v None s = Some r1"
      using 1(2) by (auto split: option.splits)
    have t: "P (state_of r1)"
      by (rule put_preserved(1)[OF assms r1 1(3) preservedD(1)[OF assms]])
    show ?thesis
    proof (cases r1)
      case (Ok s')
      with 1(2) True r1 have "loop this v s' = Some r" by simp
      moreover have "P s'" using t Ok by simp
      ultimately show ?thesis using 1(1) by blast
    next
      case (Throw e s')
      with 1(2) True t r1 show ?thesis by auto
    qed
  next
    case False
    with 1(2,3) show ?thesis by auto
  qed
qed


lemma fill_preserved:
  assumes "preserved G P"
      and "\<And>s. P s \<Longrightarrow> lookup_fill s this = PrototypeFill \<Longrightarrow> backlog s this \<le> 0 \<Longrightarrow>
                P (s\<lparr>filled := (filled s)(this \<mapsto> v)\<rparr>)"
  shows "fill this v s = Some r \<Longrightarrow> P s \<Longrightarrow> P (state_of r)"
proof -
  assume r: "fill this v s = Some r" and P: "P s"
  show ?thesis
  proof (cases "lookup_fill s this")
    case Noop
    then show ?thesis using r P by (auto simp: fill_def)
  next
    case PrototypeFill
    show ?thesis
    proof (cases "backlog s this > 0")
      case True
      then show ?thesis using r P PrototypeFill by (auto simp: fill_def Channel_fill_def)
    next
      case False
      then have "P (s\<lparr>filled := (filled s)(this \<mapsto> v)\<rparr>)"
        using assms(2)[OF P PrototypeFill] by simp
      moreover have "fill_loop this v (s\<lparr>filled := (filled s)(this \<mapsto> v)\<rparr>) = Some r"
        using r PrototypeFill False by (simp add: fill_def Channel_fill_def)
      ultimately show ?thesis using fill_loop_preserved[OF assms(1)] by blast
    qed
  qed
qed

lemma list_all_update:
  "list_all P xs \<Longrightarrow> P x \<Longrightarrow> list_all P (xs[i := x])"
  by (induction xs arbitrary: i) (auto split: nat.splits)

lemma chans_Channel_take:
  "chans (Channel_take b c s) =
     (chans s)(b := (case queue (chans s b) of
                       [] \<Rightarrow> (case c of None \<Rightarrow> chans s b
                               | Some k \<Rightarrow> (chans s b)\<lparr>pending := pending (chans s b) @ [k]\<rparr>)
                     | q # qs \<Rightarrow> (chans s b)\<lparr>queue := qs\<rparr>))"
  by (auto simp: prim_defs split: list.splits option.splits)

lemma chans_Channel_put:
  "chans (Channel_put b v c s) =
     (chans s)(b := (case pending (chans s b) of
                       [] \<Rightarrow> (chans s b)\<lparr>queue := queue (chans s b) @
                                 [\<lparr> cbv_callback = c, cbv_value = v \<rparr>]\<rparr>
                     | p # ps \<Rightarrow> (chans s b)\<lparr>pending := ps\<rparr>))"
  by (auto simp: prim_defs split: list.splits option.splits)

lemma ticks_Channel_take:
  "ticks (Channel_take b c s) =
     ticks s @ (case queue (chans s b) of
                  [] \<Rightarrow> []
                | q # qs \<Rightarrow> ack_task q @
                    (case c of None \<Rightarrow> []
                     | Some k \<Rightarrow> [\<lparr> task_callback = k, task_err = Null, task_value = cbv_value q \<rparr>]))"
  by (auto simp: prim_defs ack_task_def split: list.splits option.splits)

lemma ticks_Channel_put:
  "ticks (Channel_put b v c s) =
     ticks s @ (case pending (chans s b) of
                  [] \<Rightarrow> []
                | p # ps \<Rightarrow>
                    (case c of None \<Rightarrow> []
                     | Some k \<Rightarrow> [\<lparr> task_callback = k, task_err = Null, task_value = v \<rparr>]) @
                    [\<lparr> task_callback = p, task_err = Null, task_value = v \<rparr>])"
  by (auto simp: prim_defs split: list.splits option.splits)

lemma chans_send [simp]:
  "chans (sendValue v c s) = chans s" "chans (sendError e c s) = chans s"
  "filled (sendValue v c s) = filled s" "filled (sendError e c s) = filled s"
  "calls (sendValue v c s) = calls s" "calls (sendError e c s) = calls s"
  by (simp_all add: prim_defs split: option.splits)

lemma chans_release:
  "chans (state_of (bufferedTake_release this N s)) b =
     (if b = root this \<and> N \<le> backlog s this \<and> 0 \<le> N - 1 \<and>
         nat (N - 1) < length (queue (chans s (root this)))
      then (chans s b)\<lparr>queue := (queue (chans s b))
             [nat (N - 1) := (queue (chans s b) ! nat (N - 1))\<lparr>cbv_callback := None\<rparr>]\<rparr>
      else chans s b)"
  by (simp add: bufferedTake_release_def Let_def set_chan_def)

lemma user_onlyD:
  assumes "user_only s"
  shows "list_all (\<lambda>t. is_User (task_callback t)) (ticks s)"
    and "list_all (\<lambda>q. user_cb (cbv_callback q)) (queue (chans s b))"
    and "list_all is_User (pending (chans s b))"
  using assms by (simp_all add: user_only_def)

lemma user_only_preserved: "preserved user_cb user_only"
  unfolding preserved_def
proof (intro conjI allI impI)
  show "user_cb None" by (simp add: user_cb_def)
next
  fix s v c assume "user_only s" "user_cb c"
  then show "user_only (sendValue v c s)"
    by (auto simp: user_only_def user_cb_def prim_defs split: option.splits)
next
  fix s e c assume "user_only s" "user_cb c"
  then show "user_only (sendError e c s)"
    by (auto simp: user_only_def user_cb_def prim_defs split: option.splits)
next
  fix s b c assume u: "user_only s" and c: "user_cb c"
  show "user_only (Channel_take b c s)"
    using user_onlyD(2,3)[OF u, of b] c u
    by (cases "queue (chans s b)"; cases c)
       (auto simp: user_only_def user_cb_def chans_Channel_take ticks_Channel_take ack_task_def
             split: option.splits)
next
  fix s b v c assume u: "user_only s" and c: "user_cb c"
  show "user_only (Channel_put b v c s)"
    using user_onlyD(2,3)[OF u, of b] c u
    by (cases "pending (chans s b)"; cases c)
       (auto simp: user_only_def user_cb_def chans_Channel_put ticks_Channel_put)
next
  fix s this N assume u: "user_only s"
  show "user_only (state_of (bufferedTake_release this N s))"
  proof (cases "N \<le> backlog s this \<and> 0 \<le> N - 1 \<and> nat (N - 1) < length (queue (chans s (root this)))")
    case False
    then show ?thesis using u by (auto simp: bufferedTake_release_def Let_def)
  next
    case True
    let ?q = "queue (chans s (root this)) ! nat (N - 1)"
    have q: "user_cb (cbv_callback ?q)"
      using user_onlyD(2)[OF u, of "root this"] True by (auto simp: list_all_length)
    have "list_all (\<lambda>q. user_cb (cbv_callback q))
            ((queue (chans s (root this)))[nat (N - 1) := ?q\<lparr>cbv_callback := None\<rparr>])"
      using user_onlyD(2)[OF u, of "root this"]
      by (intro list_all_update) (auto simp: user_cb_def)
    then show ?thesis
      using u True q user_onlyD(3)[OF u, of "root this"]
      by (auto simp: bufferedTake_release_def Let_def user_only_def user_cb_def prim_defs
               split: option.splits)
  qed
qed

lemma user_only_fill:
  "user_only s \<Longrightarrow> user_only (s\<lparr>filled := f\<rparr>)"
  by (simp add: user_only_def)

lemma map_option_User: "user_cb (map_option User a)"
  by (cases a) (simp_all add: user_cb_def is_User_def)

lemma tick_user:
  assumes "user_only s"
  shows "tick d s = Some (Ok (case ticks s of [] \<Rightarrow> s
                               | t # ts \<Rightarrow> s\<lparr>ticks := ts, calls := calls s @ call_of t\<rparr>))"
proof (cases "ticks s")
  case Nil
  then show ?thesis by (simp add: tick_def)
next
  case (Cons t ts)
  with assms obtain n where "task_callback t = User n"
    by (auto simp: user_only_def is_User_def split: cb.splits)
  then show ?thesis using Cons by (simp add: tick_def)
qed

lemma step_preserved:
  assumes pr: "preserved user_cb P"
      and fl: "\<And>s c v. P s \<Longrightarrow> lookup_fill s c = PrototypeFill \<Longrightarrow> backlog s c \<le> 0 \<Longrightarrow>
                P (s\<lparr>filled := (filled s)(c \<mapsto> v)\<rparr>)"
      and lg: "\<And>s t ts. P s \<Longrightarrow> ticks s = t # ts \<Longrightarrow>
                P (s\<lparr>ticks := ts, calls := calls s @ call_of t\<rparr>)"
      and u: "user_only s" and P: "P s" and r: "step d x s = Some r"
  shows "P (state_of r)"
proof (cases x)
  case (Put c v a)
  then show ?thesis using put_preserved(2)[OF pr _ P map_option_User] r by simp
next
  case (Take c a)
  then show ?thesis using take_ch_preserved[OF pr P map_option_User] r by auto
next
  case (Fill c v)
  then show ?thesis using fill_preserved[OF pr fl _ P] r by simp
next
  case Tick
  show ?thesis
  proof (cases "ticks s")
    case Nil
    then show ?thesis using Tick r P tick_user[OF u, of d] by auto
  next
    case (Cons t ts)
    then show ?thesis using Tick r lg[OF P Cons] tick_user[OF u, of d] by auto
  qed
qed

lemma user_only_step:
  assumes "user_only s" "step d x s = Some r"
  shows "user_only (state_of r)"
proof (rule step_preserved[OF user_only_preserved _ _ assms(1) assms(1) assms(2)])
  fix s c v assume "user_only s"
  then show "user_only (s\<lparr>filled := (filled s)(c \<mapsto> v)\<rparr>)" by (rule user_only_fill)
next
  fix s t ts assume "user_only s" "ticks s = t # ts"
  then show "user_only (s\<lparr>ticks := ts, calls := calls s @ call_of t\<rparr>)"
    by (simp add: user_only_def)
qed

lemma exec_preserved:
  assumes pr: "preserved user_cb P"
      and fl: "\<And>s c v. P s \<Longrightarrow> lookup_fill s c = PrototypeFill \<Longrightarrow> backlog s c \<le> 0 \<Longrightarrow>
                P (s\<lparr>filled := (filled s)(c \<mapsto> v)\<rparr>)"
      and lg: "\<And>s t ts. P s \<Longrightarrow> ticks s = t # ts \<Longrightarrow>
                P (s\<lparr>ticks := ts, calls := calls s @ call_of t\<rparr>)"
  shows "user_only s \<Longrightarrow> P s \<Longrightarrow> exec d ops s = Some s' \<Longrightarrow> P s' \<and> user_only s'"
proof (induction ops arbitrary: s)
  case Nil
  then show ?case by simp
next
  case (Cons x xs)
  from Cons.prems(3) obtain r where r: "step d x s = Some r" and e: "exec d xs (state_of r) = Some s'"
    by (auto split: option.splits)
  have "P (state_of r)" by (rule step_preserved[OF pr fl lg Cons.prems(1,2) r])
  moreover have "user_only (state_of r)" by (rule user_only_step[OF Cons.prems(1) r])
  ultimately show ?case using Cons.IH e by blast
qed

lemma user_only_init: "user_only init"
  by (simp add: user_only_def init_def)

lemma one_emptyD: "one_empty s \<Longrightarrow> queue (chans s b) = [] \<or> pending (chans s b) = []"
  by (simp add: one_empty_def)

lemma one_empty_preserved: "preserved G one_empty" if "G None"
  unfolding preserved_def
proof (intro conjI allI impI)
  show "G None" by (rule that)
next
  fix s v c assume "one_empty s"
  then show "one_empty (sendValue v c s)" by (simp add: one_empty_def)
next
  fix s e c assume "one_empty s"
  then show "one_empty (sendError e c s)" by (simp add: one_empty_def)
next
  fix s b c assume u: "one_empty s"
  show "one_empty (Channel_take b c s)"
    unfolding one_empty_def
  proof
    fix b'
    show "queue (chans (Channel_take b c s) b') = [] \<or> pending (chans (Channel_take b c s) b') = []"
      using one_emptyD[OF u, of b'] one_emptyD[OF u, of b]
      by (cases "queue (chans s b)"; cases c) (auto simp: chans_Channel_take)
  qed
next
  fix s b v c assume u: "one_empty s"
  show "one_empty (Channel_put b v c s)"
    unfolding one_empty_def
  proof
    fix b'
    show "queue (chans (Channel_put b v c s) b') = [] \<or> pending (chans (Channel_put b v c s) b') = []"
      using one_emptyD[OF u, of b'] one_emptyD[OF u, of b]
      by (cases "pending (chans s b)") (auto simp: chans_Channel_put)
  qed
next
  fix s this N assume u: "one_empty s"
  show "one_empty (state_of (bufferedTake_release this N s))"
    unfolding one_empty_def
  proof
    fix b'
    show "queue (chans (state_of (bufferedTake_release this N s)) b') = [] \<or>
          pending (chans (state_of (bufferedTake_release this N s)) b') = []"
      using one_emptyD[OF u, of b'] by (auto simp: chans_release)
  qed
qed


lemma exec_one_empty:
  assumes "user_only s" "one_empty s" "exec d ops s = Some s'"
  shows "one_empty s' \<and> user_only s'"
proof (rule exec_preserved[OF one_empty_preserved _ _ assms])
  show "user_cb None" by (simp add: user_cb_def)
next
  fix s c v assume "one_empty s"
  then show "one_empty (s\<lparr>filled := (filled s)(c \<mapsto> v)\<rparr>)" by (simp add: one_empty_def)
next
  fix s t ts assume "one_empty s"
  then show "one_empty (s\<lparr>ticks := ts, calls := calls s @ call_of t\<rparr>)" by (simp add: one_empty_def)
qed

lemma base_op_returns:
  assumes "user_only s" "base_op x"
  shows "\<exists>r. step d x s = Some r"
  using assms tick_user[OF assms(1), of d]
  by (cases x rule: base_op.cases) (auto split: option.splits)

lemma base_ops_return:
  "user_only s \<Longrightarrow> list_all base_op ops \<Longrightarrow> \<exists>s'. exec d ops s = Some s'"
proof (induction ops arbitrary: s)
  case Nil
  then show ?case by simp
next
  case (Cons x xs)
  then obtain r where r: "step d x s = Some r" using base_op_returns[of s x d] by auto
  have "user_only (state_of r)" by (rule user_only_step[OF Cons.prems(1) r])
  then show ?case using Cons.IH[of "state_of r"] Cons.prems(2) r by simp
qed

text \<open>
  C4. Starting from new channels, after every sequence of \<^verbatim>\<open>put\<close> and \<^verbatim>\<open>take\<close>
  operations on base channels and turns of the event loop, and after every part of it
  (its first \<open>n\<close> operations), the operations have returned and, for every base channel,
  \<^verbatim>\<open>_queue\<close> or \<^verbatim>\<open>_pending\<close> is empty and \<^verbatim>\<open>backlog()\<close> is the length of the
  first minus the length of the second.
\<close>

theorem one_queue_is_empty:
  assumes "list_all base_op ops"
  shows "\<exists>s. exec d (take n ops) init = Some s \<and>
             (queue (chans s b) = [] \<or> pending (chans s b) = []) \<and>
             backlog s (Base b) =
               int (length (queue (chans s b))) - int (length (pending (chans s b)))"
proof -
  have "list_all base_op (take n ops)"
    using assms by (auto simp: list_all_iff dest: in_set_takeD)
  then obtain s where s: "exec d (take n ops) init = Some s"
    using base_ops_return[OF user_only_init] by blast
  have "one_empty init" by (simp add: one_empty_def init_def)
  then have "one_empty s" using exec_one_empty[OF user_only_init _ s] by simp
  then show ?thesis using s by (auto simp: one_empty_def backlog_def)
qed

theorem one_queue_is_empty_witness:
  "list_all base_op [Put (Base 0) (Num 1) (Some 0), Put (Base 0) (Num 2) None, Take (Base 0) (Some 1),
                     Tick, Take (Base 0) (Some 2), Take (Base 0) (Some 3)]
   \<and> (\<exists>s. exec 0 (take 2 [Put (Base 0) (Num 1) (Some 0), Put (Base 0) (Num 2) None,
                             Take (Base 0) (Some 1), Tick, Take (Base 0) (Some 2), Take (Base 0) (Some 3)])
             init = Some s \<and>
           (queue (chans s 0) = [] \<or> pending (chans s 0) = []) \<and>
           backlog s (Base 0) = 2)"
  using one_queue_is_empty[of "[Put (Base 0) (Num 1) (Some 0), Put (Base 0) (Num 2) None,
          Take (Base 0) (Some 1), Tick, Take (Base 0) (Some 2), Take (Base 0) (Some 3)]" 0 2 0]
  by (auto simp: init_def prim_defs backlog_def)

section \<open>Properties of \<^verbatim>\<open>fill\<close>\<close>

lemma lookup_fill_iff:
  "lookup_fill s c = PrototypeFill \<longleftrightarrow> filled s c = None \<and> ancestors_unfilled s c"
  by (induction c) (auto split: option.splits)

lemma lookup_fill_filled: "filled s c = Some v \<Longrightarrow> lookup_fill s c = Noop"
  by (cases c) simp_all

lemma ancestors_unfilled_upd:
  "ancestors_unfilled s c \<Longrightarrow> size c \<le> size c' \<Longrightarrow>
   ancestors_unfilled (s\<lparr>filled := (filled s)(c' \<mapsto> v)\<rparr>) c"
  by (induction c) auto

lemma ancestors_unfilled_cong:
  "filled s' = filled s \<Longrightarrow> ancestors_unfilled s' c = ancestors_unfilled s c"
  by (induction c) auto

lemma backlog_parent [simp]: "backlog s (Wrap i k N p) = backlog s p"
  by (simp add: backlog_def)

lemma put_unfilled:
  "filled s c = None \<Longrightarrow> put c v a s = origPut c v a s"
  by (cases c) simp_all

lemma origPut_delivers:
  "ancestors_unfilled s c \<Longrightarrow> lengths_nonneg c \<Longrightarrow> backlog s c < 0 \<Longrightarrow>
   origPut c v None s = Some (Ok (Channel_put (root c) v None s))"
proof (induction c)
  case (Base b)
  then show ?case by simp
next
  case (Wrap i k N p)
  then have p: "put p v None s = Some (Ok (Channel_put (root p) v None s))"
    by (simp add: put_unfilled)
  from Wrap.prems have lt: "backlog s p < N" by simp
  show ?case
  proof (cases k)
    case Buffered
    then show ?thesis using p lt by simp
  next
    case Dropping
    then show ?thesis using p lt by simp
  next
    case Expiring
    have "expiringPut_loop (Wrap i Expiring N p) N s = Some (Ok s)"
      using lt by (subst expiringPut_loop.simps) simp
    then show ?thesis using Expiring p by simp
  qed
qed

lemma fill_loop_delivers:
  "ancestors_unfilled s c \<Longrightarrow> lengths_nonneg c \<Longrightarrow> queue (chans s (root c)) = [] \<Longrightarrow>
   fill_loop c v s =
     Some (Ok (s\<lparr>chans := (chans s)(root c := (chans s (root c))\<lparr>pending := []\<rparr>),
                ticks := ticks s @ deliveries v (pending (chans s (root c)))\<rparr>))"
proof (induction "pending (chans s (root c))" arbitrary: s)
  case Nil
  then have "pending (chans s (root c)) = []" by simp
  then have "(chans s (root c))\<lparr>pending := []\<rparr> = chans s (root c)"
    by (metis channel.update_convs(2) channel.surjective)
  then have "s\<lparr>chans := (chans s)(root c := (chans s (root c))\<lparr>pending := []\<rparr>)\<rparr> = s"
    by simp
  with Nil show ?case
    by (subst fill_loop.simps) (simp add: backlog_def deliveries_def)
next
  case (Cons p ps)
  let ?b = "root c"
  let ?s1 = "Channel_put ?b v None s"
  have p: "pending (chans s ?b) = p # ps" using Cons.hyps(2) by simp
  have 1: "ps = pending (chans ?s1 ?b)" "queue (chans ?s1 ?b) = []" "filled ?s1 = filled s"
    using p Cons.prems(3) by (simp_all add: prim_defs)
  have a1: "ancestors_unfilled ?s1 c"
    using Cons.prems(1) ancestors_unfilled_cong[OF 1(3)] by simp
  have lt: "backlog s c < 0" using p Cons.prems(3) by (simp add: backlog_def)
  have "fill_loop c v s = fill_loop c v ?s1"
    using lt origPut_delivers[OF Cons.prems(1,2) lt] by (subst fill_loop.simps) simp
  also have "\<dots> = Some (Ok (?s1\<lparr>chans := (chans ?s1)(?b := (chans ?s1 ?b)\<lparr>pending := []\<rparr>),
                ticks := ticks ?s1 @ deliveries v (pending (chans ?s1 ?b))\<rparr>))"
    by (rule Cons.hyps(1)[OF 1(1) a1 Cons.prems(2) 1(2)])
  also have "\<dots> = Some (Ok (s\<lparr>chans := (chans s)(?b := (chans s ?b)\<lparr>pending := []\<rparr>),
                ticks := ticks s @ deliveries v (pending (chans s ?b))\<rparr>))"
    using p Cons.prems(3) by (simp add: prim_defs deliveries_def)
  finally show ?case .
qed

lemma filled_prims [simp]:
  "filled (Channel_take b a s) = filled s"
  "filled (Channel_put b w a s) = filled s"
  "filled (state_of (bufferedTake_release this N s)) = filled s"
  by (auto simp: prim_defs bufferedTake_release_def split: option.splits list.splits)

lemma filled_preserved: "preserved user_cb (\<lambda>s. filled s c = Some v)"
  by (simp add: preserved_def user_cb_def)

lemma exec_filled:
  assumes "user_only s" "filled s c = Some v" "exec d ops s = Some s'"
  shows "filled s' c = Some v"
proof -
  have "filled s' c = Some v \<and> user_only s'"
  proof (rule exec_preserved[OF filled_preserved _ _ assms])
    fix s c' v' assume "filled s c = Some v" "lookup_fill s c' = PrototypeFill"
    then show "filled (s\<lparr>filled := (filled s)(c' \<mapsto> v')\<rparr>) c = Some v"
      using lookup_fill_filled[of s c v] by auto
  next
    fix s :: state and t ts assume "filled s c = Some v"
    then show "filled (s\<lparr>ticks := ts, calls := calls s @ call_of t\<rparr>) c = Some v" by simp
  qed
  then show ?thesis by simp
qed

lemma take_ch_filled: "filled s c = Some v \<Longrightarrow> take_ch c a s = Ok (sendValue v a s)"
  by (cases c) simp_all

lemma put_filled: "filled s c = Some v \<Longrightarrow> put c w a s = Some (Ok (sendError (Str ''filled'') a s))"
  by (cases c) simp_all

lemma user_only_reachable: "exec d ops init = Some s \<Longrightarrow> user_only s \<and> one_empty s"
  using exec_one_empty[OF user_only_init, of d ops s] by (simp add: one_empty_def init_def)

lemma fill_loop_diverges:
  assumes "fill_loop c v s = Some r"
  shows "\<not> (origPut c v None s = Some (Ok s) \<and> backlog s c < 0)"
  using assms
proof (induction c v s r rule: fill_loop.raw_induct[rotated 1, consumes 1])
  case (1 f this v s r)
  show ?case
  proof
    assume a: "origPut this v None s = Some (Ok s) \<and> backlog s this < 0"
    with 1(2) have "f this v s = Some r" by simp
    from 1(1)[OF this] a show False by simp
  qed
qed

text \<open>
  C5, as stated, fails on an object derived from a filled one, and on a
  \<^verbatim>\<open>droppingBuffer\<close> of negative length with a parked taker. After
  \<^verbatim>\<open>ch.fill(1); d = ch.droppingBuffer(1); d.fill(2)\<close> the \<^verbatim>\<open>fill\<close> found for
  \<^verbatim>\<open>d\<close> is the no-op stored on \<^verbatim>\<open>ch\<close>: \<^verbatim>\<open>d.take(cb)\<close> calls
  \<^verbatim>\<open>cb(null, 1)\<close>, not \<^verbatim>\<open>cb(null, 2)\<close>, and \<^verbatim>\<open>d.put(5, ack)\<close> calls
  \<^verbatim>\<open>ack(null, 5)\<close>, not \<^verbatim>\<open>ack('filled', null)\<close>. After \<^verbatim>\<open>ch.take(cb)\<close>,
  \<^verbatim>\<open>ch.droppingBuffer(-1).fill(9)\<close> does not return: \<^verbatim>\<open>droppingPut\<close> drops the value
  and the backlog stays negative.
\<close>

theorem fill_constant_source_counterexample:
  "map_option calls
     (exec 0 [Fill (Base 0) (Num 1), Fill (Wrap 0 Dropping 1 (Base 0)) (Num 2),
              Take (Wrap 0 Dropping 1 (Base 0)) (Some 0),
              Put (Wrap 0 Dropping 1 (Base 0)) (Num 5) (Some 1), Tick, Tick] init) =
     Some [\<lparr> call_id = 0, call_err = Null, call_value = Num 1 \<rparr>,
           \<lparr> call_id = 1, call_err = Null, call_value = Num 5 \<rparr>]
   \<and> exec 0 [Take (Base 0) (Some 0), Fill (Wrap 0 Dropping (- 1) (Base 0)) (Num 9)] init = None"
proof -
  have 1: "map_option calls
     (exec 0 [Fill (Base 0) (Num 1), Fill (Wrap 0 Dropping 1 (Base 0)) (Num 2),
              Take (Wrap 0 Dropping 1 (Base 0)) (Some 0),
              Put (Wrap 0 Dropping 1 (Base 0)) (Num 5) (Some 1), Tick, Tick] init) =
     Some [\<lparr> call_id = 0, call_err = Null, call_value = Num 1 \<rparr>,
           \<lparr> call_id = 1, call_err = Null, call_value = Num 5 \<rparr>]"
    by code_simp
  let ?c = "Wrap 0 Dropping (- 1) (Base 0)"
  let ?s = "parked_taker\<lparr>filled := (filled parked_taker)(?c \<mapsto> Num 9)\<rparr>"
  have "origPut ?c (Num 9) None ?s = Some (Ok ?s) \<and> backlog ?s ?c < 0"
    by (simp add: parked_taker_def init_def backlog_def prim_defs)
  then have "fill_loop ?c (Num 9) ?s = None"
    using fill_loop_diverges[of ?c "Num 9" ?s] by (cases "fill_loop ?c (Num 9) ?s") auto
  then have "fill ?c (Num 9) parked_taker = None"
    by (simp add: fill_def Channel_fill_def parked_taker_def init_def backlog_def)
  moreover have "exec 0 [Take (Base 0) (Some 0)] init = Some parked_taker"
    by (simp add: parked_taker_def init_def prim_defs)
  ultimately have 2: "exec 0 [Take (Base 0) (Some 0), Fill ?c (Num 9)] init = None"
    by simp
  from 1 2 show ?thesis by simp
qed

text \<open>
  C5, amended. Let \<open>c\<close> be a channel object, a base channel or a \<^verbatim>\<open>buffer\<close>,
  \<^verbatim>\<open>droppingBuffer\<close> or \<^verbatim>\<open>expiringBuffer\<close> with buffer lengths that are not
  negative, in a state reached from new channels by \<^verbatim>\<open>put\<close>, \<^verbatim>\<open>take\<close>,
  \<^verbatim>\<open>fill\<close> and turns of the event loop, such that \<^verbatim>\<open>fill\<close> has been called
  neither on \<open>c\<close> nor on an object above it in its prototype chain, with backlog at
  most 0. Then \<^verbatim>\<open>fill(v)\<close> returns, having scheduled \<^verbatim>\<open>(null, v)\<close> for every parked
  taker, in order, and emptied \<^verbatim>\<open>_pending\<close>. After any further operations,
  \<^verbatim>\<open>take(cb)\<close> on \<open>c\<close> schedules \<^verbatim>\<open>cb(null, v)\<close>, \<^verbatim>\<open>put(w, ack)\<close> on
  \<open>c\<close> schedules \<^verbatim>\<open>ack('filled', null)\<close>, and \<^verbatim>\<open>fill\<close> on \<open>c\<close> changes
  nothing.
\<close>

theorem fill_makes_constant_source:
  assumes "exec d ops0 init = Some s"
      and "lookup_fill s c = PrototypeFill" "lengths_nonneg c" "backlog s c \<le> 0"
      and "exec d ops (s\<lparr>filled := (filled s)(c \<mapsto> v),
                        chans := (chans s)(root c := (chans s (root c))\<lparr>pending := []\<rparr>),
                        ticks := ticks s @ deliveries v (pending (chans s (root c)))\<rparr>) = Some s'"
  shows "fill c v s =
           Some (Ok (s\<lparr>filled := (filled s)(c \<mapsto> v),
                      chans := (chans s)(root c := (chans s (root c))\<lparr>pending := []\<rparr>),
                      ticks := ticks s @ deliveries v (pending (chans s (root c)))\<rparr>))
       \<and> take_ch c cb s' = Ok (sendValue v cb s')
       \<and> put c w ack s' = Some (Ok (sendError (Str ''filled'') ack s'))
       \<and> fill c v' s' = Some (Ok s')"
proof -
  let ?s0 = "s\<lparr>filled := (filled s)(c \<mapsto> v)\<rparr>"
  let ?s1 = "s\<lparr>filled := (filled s)(c \<mapsto> v),
               chans := (chans s)(root c := (chans s (root c))\<lparr>pending := []\<rparr>),
               ticks := ticks s @ deliveries v (pending (chans s (root c)))\<rparr>"
  have us: "user_only s" and oe: "one_empty s"
    using user_only_reachable[OF assms(1)] by simp_all
  have q: "queue (chans s (root c)) = []"
    using one_emptyD[OF oe, of "root c"] assms(4) by (auto simp: backlog_def)
  have au: "ancestors_unfilled ?s0 c"
    using assms(2) ancestors_unfilled_upd[of s c c v] by (simp add: lookup_fill_iff)
  have "fill_loop c v ?s0 = Some (Ok ?s1)"
    using fill_loop_delivers[OF au assms(3), of v] q by simp
  then have f: "fill c v s = Some (Ok ?s1)"
    using assms(2,4) by (simp add: fill_def Channel_fill_def)
  have u1: "user_only ?s1"
    using us user_onlyD(3)[OF us, of "root c"]
    by (auto simp: user_only_def deliveries_def list_all_iff)
  have "filled s' c = Some v"
    using exec_filled[OF u1 _ assms(5)] by simp
  then show ?thesis
    using f take_ch_filled put_filled lookup_fill_filled by (simp add: fill_def)
qed

theorem fill_makes_constant_source_witness:
  "fill (Base 0) (Num 9) two_takers =
     Some (Ok (two_takers\<lparr>filled := (filled two_takers)(Base 0 \<mapsto> Num 9),
                 chans := (chans two_takers)(0 := \<lparr> queue = [], pending = [] \<rparr>),
                 ticks := [\<lparr> task_callback = User 0, task_err = Null, task_value = Num 9 \<rparr>,
                           \<lparr> task_callback = User 1, task_err = Null, task_value = Num 9 \<rparr>]\<rparr>))
   \<and> map_option calls
       (exec 0 [Take (Base 0) (Some 0), Take (Base 0) (Some 1), Fill (Base 0) (Num 9), Tick, Tick,
                Take (Base 0) (Some 2), Put (Base 0) (Num 1) (Some 3), Fill (Base 0) (Num 4),
                Take (Base 0) (Some 5), Tick, Tick, Tick] init) =
     Some [\<lparr> call_id = 0, call_err = Null, call_value = Num 9 \<rparr>,
           \<lparr> call_id = 1, call_err = Null, call_value = Num 9 \<rparr>,
           \<lparr> call_id = 2, call_err = Null, call_value = Num 9 \<rparr>,
           \<lparr> call_id = 3, call_err = Str ''filled'', call_value = Null \<rparr>,
           \<lparr> call_id = 5, call_err = Null, call_value = Num 9 \<rparr>]"
proof -
  have r: "exec 0 [Take (Base 0) (Some 0), Take (Base 0) (Some 1)] init = Some two_takers"
    by (simp add: two_takers_def init_def prim_defs)
  have h: "lookup_fill two_takers (Base 0) = PrototypeFill" "lengths_nonneg (Base 0)"
       "backlog two_takers (Base 0) \<le> 0"
    by (simp_all add: two_takers_def init_def backlog_def)
  have e: "exec 0 [] (two_takers\<lparr>filled := (filled two_takers)(Base 0 \<mapsto> Num 9),
                        chans := (chans two_takers)(root (Base 0) := (chans two_takers (root (Base 0)))\<lparr>pending := []\<rparr>),
                        ticks := ticks two_takers @ deliveries (Num 9) (pending (chans two_takers (root (Base 0))))\<rparr>)
           = Some (two_takers\<lparr>filled := (filled two_takers)(Base 0 \<mapsto> Num 9),
                        chans := (chans two_takers)(root (Base 0) := (chans two_takers (root (Base 0)))\<lparr>pending := []\<rparr>),
                        ticks := ticks two_takers @ deliveries (Num 9) (pending (chans two_takers (root (Base 0))))\<rparr>)"
    by simp
  have f: "fill (Base 0) (Num 9) two_takers =
     Some (Ok (two_takers\<lparr>filled := (filled two_takers)(Base 0 \<mapsto> Num 9),
                 chans := (chans two_takers)(0 := \<lparr> queue = [], pending = [] \<rparr>),
                 ticks := [\<lparr> task_callback = User 0, task_err = Null, task_value = Num 9 \<rparr>,
                           \<lparr> task_callback = User 1, task_err = Null, task_value = Num 9 \<rparr>]\<rparr>))"
    using fill_makes_constant_source[OF r h e]
    by (simp add: two_takers_def init_def deliveries_def)
  have "exec 0 [Take (Base 0) (Some 0), Take (Base 0) (Some 1), Fill (Base 0) (Num 9), Tick, Tick,
                Take (Base 0) (Some 2), Put (Base 0) (Num 1) (Some 3), Fill (Base 0) (Num 4),
                Take (Base 0) (Some 5), Tick, Tick, Tick] init =
        exec 0 [Tick, Tick,
                Take (Base 0) (Some 2), Put (Base 0) (Num 1) (Some 3), Fill (Base 0) (Num 4),
                Take (Base 0) (Some 5), Tick, Tick, Tick]
          (two_takers\<lparr>filled := (filled two_takers)(Base 0 \<mapsto> Num 9),
                 chans := (chans two_takers)(0 := \<lparr> queue = [], pending = [] \<rparr>),
                 ticks := [\<lparr> task_callback = User 0, task_err = Null, task_value = Num 9 \<rparr>,
                           \<lparr> task_callback = User 1, task_err = Null, task_value = Num 9 \<rparr>]\<rparr>)"
    using f by (simp add: two_takers_def init_def prim_defs)
  then show ?thesis using f
    by (simp add: two_takers_def init_def prim_defs tick_def fill_def)
qed

text \<open>
  C10, as stated, fails on an object on which \<^verbatim>\<open>fill\<close> has been called before.
  After \<^verbatim>\<open>w = ch.buffer(2); w.fill(9); ch.put(1)\<close> the backlog of \<^verbatim>\<open>w\<close> is 1,
  and \<^verbatim>\<open>w.fill(5)\<close> is the no-op that the first \<^verbatim>\<open>fill\<close> stored on \<^verbatim>\<open>w\<close>:
  it returns without throwing.
\<close>

theorem fill_noop_counterexample:
  "exec 0 [Fill (Wrap 0 Buffered 2 (Base 0)) (Num 9), Put (Base 0) (Num 1) None] init =
     Some filled_buffer
   \<and> backlog filled_buffer (Wrap 0 Buffered 2 (Base 0)) = 1
   \<and> fill (Wrap 0 Buffered 2 (Base 0)) (Num 5) filled_buffer = Some (Ok filled_buffer)"
proof -
  have "fill_loop (Wrap 0 Buffered 2 (Base 0)) (Num 9)
          (init\<lparr>filled := (filled init)(Wrap 0 Buffered 2 (Base 0) \<mapsto> Num 9)\<rparr>) =
        Some (Ok (init\<lparr>filled := (filled init)(Wrap 0 Buffered 2 (Base 0) \<mapsto> Num 9)\<rparr>))"
    by (subst fill_loop.simps) (simp add: init_def backlog_def)
  then show ?thesis
    by (simp add: filled_buffer_def fill_def Channel_fill_def init_def backlog_def prim_defs)
qed

text \<open>
  C10, amended. \<^verbatim>\<open>fill(v)\<close> on a channel object with a positive backlog leaves the
  state as it was, so that every later operation does what it would have done. It throws
  when \<^verbatim>\<open>fill\<close> has been called neither on the object nor on an object above it in
  its prototype chain; otherwise it is the no-op stored by that earlier \<^verbatim>\<open>fill\<close>,
  and returns.
\<close>

theorem fill_after_put_throws:
  assumes "0 < backlog s c"
  shows "fill c v s =
           Some (if filled s c = None \<and> ancestors_unfilled s c then Throw FillAfterPut s else Ok s)"
proof (cases "lookup_fill s c")
  case Noop
  then have "\<not> (filled s c = None \<and> ancestors_unfilled s c)"
    using lookup_fill_iff[of s c] by simp
  with Noop show ?thesis by (simp add: fill_def)
next
  case PrototypeFill
  then have "filled s c = None \<and> ancestors_unfilled s c"
    using lookup_fill_iff[of s c] by simp
  with PrototypeFill assms show ?thesis by (simp add: fill_def Channel_fill_def)
qed

theorem fill_after_put_throws_witness:
  "0 < backlog two_parked (Base 0)
   \<and> fill (Base 0) (Num 9) two_parked = Some (Throw FillAfterPut two_parked)
   \<and> 0 < backlog filled_buffer (Wrap 0 Buffered 2 (Base 0))
   \<and> fill (Wrap 0 Buffered 2 (Base 0)) (Num 7) filled_buffer = Some (Ok filled_buffer)"
proof -
  have h: "0 < backlog two_parked (Base 0)"
    by (simp add: two_parked_def init_def backlog_def)
  have k: "0 < backlog filled_buffer (Wrap 0 Buffered 2 (Base 0))"
    by (simp add: filled_buffer_def init_def backlog_def)
  show ?thesis
    using h k fill_after_put_throws[OF h, of "Num 9"] fill_after_put_throws[OF k, of "Num 7"]
    by (simp add: two_parked_def filled_buffer_def init_def)
qed

section \<open>Properties of \<^verbatim>\<open>stream\<close> and \<^verbatim>\<open>takeN\<close>\<close>

lemma run_add:
  "run d (m + n) s = (case run d m s of Some (Ok s') \<Rightarrow> run d n s' | r \<Rightarrow> r)"
proof (induction m arbitrary: s)
  case 0
  show ?case by simp
next
  case (Suc m)
  show ?case
  proof (cases "tick d s")
    case None
    then show ?thesis by simp
  next
    case (Some r)
    then show ?thesis using Suc by (cases r) simp_all
  qed
qed

lemma exchange_step:
  assumes "heap s array = HArr xs" "array < nheap s" "filled s (Base b) = None"
      and "0 < k" "k < length xs" "xs ! (k - 1) \<noteq> Null"
  shows "run d 2 (exchanging s array b ack cbk (int (length xs)) xs k) =
         Some (Ok (exchanging s array b ack cbk (int (length xs)) xs (Suc k)))"
proof -
  have t: "take (k - 1) xs @ [xs ! (k - 1)] = take k xs"
    using assms(4,5) by (metis Suc_pred' less_imp_diff_less take_Suc_conv_app_nth)
  show ?thesis
    using assms t
    by (simp add: exchanging_def numeral_2_eq_2 tick_def elems_def js_index_def prim_defs add.commute)
qed


lemma exchange_end:
  assumes "heap s array = HArr xs" "array < nheap s" "xs \<noteq> []" "last xs \<noteq> Null"
  shows "run d 4 (exchanging s array b (Some (User a)) (Some (User c)) (int (length xs)) xs (length xs)) =
         Some (Ok (s\<lparr>nvars := Suc (nvars s), nheap := Suc (nheap s),
                     vars := (vars s)(nvars s := int (length xs)),
                     heap := (heap s)(nheap s := HArr xs),
                     chans := (chans s)(b := \<lparr> queue = [], pending = [] \<rparr>),
                     ticks := [],
                     calls := calls s @ [\<lparr> call_id = a, call_err = Null, call_value = Ref array \<rparr>,
                                         \<lparr> call_id = c, call_err = Null, call_value = Ref (nheap s) \<rparr>]\<rparr>))"
proof -
  have l: "xs ! (length xs - 1) = last xs" using assms(3) by (simp add: last_conv_nth)
  have t: "take (length xs - 1) xs @ [last xs] = xs"
    using assms(3) by (metis append_butlast_last_id butlast_conv_take)
  show ?thesis
    using assms l t
    by (simp add: exchanging_def numeral_eq_Suc tick_def elems_def js_index_def prim_defs)
qed

lemma exchange_all:
  assumes "heap s array = HArr xs" "array < nheap s" "filled s (Base b) = None"
      and "xs \<noteq> []" "Null \<notin> set xs"
  shows "0 < k \<Longrightarrow> k \<le> length xs \<Longrightarrow>
         run d (2 * (length xs - k) + 4)
           (exchanging s array b (Some (User a)) (Some (User c)) (int (length xs)) xs k) =
         Some (Ok (s\<lparr>nvars := Suc (nvars s), nheap := Suc (nheap s),
                     vars := (vars s)(nvars s := int (length xs)),
                     heap := (heap s)(nheap s := HArr xs),
                     chans := (chans s)(b := \<lparr> queue = [], pending = [] \<rparr>),
                     ticks := [],
                     calls := calls s @ [\<lparr> call_id = a, call_err = Null, call_value = Ref array \<rparr>,
                                         \<lparr> call_id = c, call_err = Null, call_value = Ref (nheap s) \<rparr>]\<rparr>))"
proof (induction "length xs - k" arbitrary: k)
  case 0
  then have k: "k = length xs" by simp
  have "last xs \<noteq> Null" using assms(4,5) by (metis last_in_set)
  then have e: "run d 4 (exchanging s array b (Some (User a)) (Some (User c)) (int (length xs)) xs (length xs)) =
         Some (Ok (s\<lparr>nvars := Suc (nvars s), nheap := Suc (nheap s),
                     vars := (vars s)(nvars s := int (length xs)),
                     heap := (heap s)(nheap s := HArr xs),
                     chans := (chans s)(b := \<lparr> queue = [], pending = [] \<rparr>),
                     ticks := [],
                     calls := calls s @ [\<lparr> call_id = a, call_err = Null, call_value = Ref array \<rparr>,
                                         \<lparr> call_id = c, call_err = Null, call_value = Ref (nheap s) \<rparr>]\<rparr>))"
    by (rule exchange_end[OF assms(1,2,4)])
  have "2 * (length xs - k) + 4 = 4" using k by simp
  then show ?case unfolding k using e by (simp only:)
next
  case (Suc m)
  then have lt: "k < length xs" by simp
  have nn: "xs ! (k - 1) \<noteq> Null"
    using assms(5) lt Suc.prems(1) by (metis less_imp_diff_less nth_mem)
  have st: "run d 2 (exchanging s array b (Some (User a)) (Some (User c)) (int (length xs)) xs k) =
            Some (Ok (exchanging s array b (Some (User a)) (Some (User c)) (int (length xs)) xs (Suc k)))"
    by (rule exchange_step[OF assms(1,2,3) Suc.prems(1) lt nn])
  have m: "m = length xs - Suc k" using Suc.hyps(2) by simp
  have n: "2 * (length xs - k) + 4 = 2 + (2 * (length xs - Suc k) + 4)" using lt by simp
  have ih: "run d (2 * (length xs - Suc k) + 4)
           (exchanging s array b (Some (User a)) (Some (User c)) (int (length xs)) xs (Suc k)) =
         Some (Ok (s\<lparr>nvars := Suc (nvars s), nheap := Suc (nheap s),
                     vars := (vars s)(nvars s := int (length xs)),
                     heap := (heap s)(nheap s := HArr xs),
                     chans := (chans s)(b := \<lparr> queue = [], pending = [] \<rparr>),
                     ticks := [],
                     calls := calls s @ [\<lparr> call_id = a, call_err = Null, call_value = Ref array \<rparr>,
                                         \<lparr> call_id = c, call_err = Null, call_value = Ref (nheap s) \<rparr>]\<rparr>))"
    using Suc.hyps(1)[OF m] lt by simp
  show ?case
    by (simp only: n run_add[of d 2 "2 * (length xs - Suc k) + 4"] st option.case result.case ih)
qed


lemma stream_then_takeN:
  assumes "heap s array = HArr xs" "array < nheap s" "xs \<noteq> []" "filled s (Base b) = None"
      and "chans s b = \<lparr> queue = [], pending = [] \<rparr>" "ticks s = []"
  shows "then_takeN (Base b) N cbk (stream d (Base b) array ack s) =
           Some (Ok (exchanging s array b ack cbk N xs 1))"
    and "then_stream d (Base b) array ack (Some (takeN (Base b) N cbk s)) =
           Some (Ok (exchanging s array b ack cbk N xs 1))"
proof -
  have n: "0 < length xs" using assms(3) by simp
  show "then_takeN (Base b) N cbk (stream d (Base b) array ack s) =
           Some (Ok (exchanging s array b ack cbk N xs 1))"
    using assms n
    by (simp add: stream_def takeN_def new_var_def new_array_def exchanging_def elems_def
          js_index_def prim_defs)
  show "then_stream d (Base b) array ack (Some (takeN (Base b) N cbk s)) =
           Some (Ok (exchanging s array b ack cbk N xs 1))"
    using assms n
    by (simp add: stream_def takeN_def new_var_def new_array_def exchanging_def elems_def
          js_index_def prim_defs)
qed

text \<open>
  C8, as stated, fails for the empty array and for the array \<^verbatim>\<open>[1, null, 2]\<close>.
  With \<^verbatim>\<open>[]\<close>, \<^verbatim>\<open>takeN(0, cb)\<close> waits for a first value: only the stream's callback
  (0) is called, and the receiver stays parked. With \<^verbatim>\<open>[1, null, 2]\<close>, \<open>cb\<close> (1) is
  called with \<^verbatim>\<open>[1]\<close> when \<^verbatim>\<open>null\<close> arrives, the stream's callback is never called
  and the value 2 stays parked.
\<close>

theorem stream_takeN_counterexample:
  "map_option (\<lambda>r. (calls (state_of r), ticks (state_of r), pending (chans (state_of r) 0)))
     (then_run 0 9 (then_takeN (Base 0) 0 (Some (User 1))
        (stream 0 (Base 0) 0 (Some (User 0)) empty_array))) =
     Some ([\<lparr> call_id = 0, call_err = Null, call_value = Ref 0 \<rparr>], [],
           [TakeNReceive 1 0 (Base 0) (Some (User 1))])
   \<and> map_option (\<lambda>r. (calls (state_of r), heap (state_of r) 1, ticks (state_of r),
                       map cbv_value (queue (chans (state_of r) 0))))
     (then_run 0 9 (then_takeN (Base 0) 3 (Some (User 1))
        (stream 0 (Base 0) 0 (Some (User 0)) array_with_null))) =
     Some ([\<lparr> call_id = 1, call_err = Null, call_value = Ref 1 \<rparr>], HArr [Num 1], [], [Num 2])"
  by code_simp

text \<open>
  C8, amended. For every array \<open>xs\<close> that is not empty and holds no \<^verbatim>\<open>null\<close>,
  \<^verbatim>\<open>stream(xs, ack)\<close> and \<^verbatim>\<open>takeN(|xs|, cb)\<close> on a new base channel, in either order,
  followed by \<open>2|xs| + 2\<close> turns of the event loop, leave nothing scheduled and have
  called \<open>ack\<close> with the array \<open>xs\<close> and then \<open>cb\<close> with a new array whose elements
  are those of \<open>xs\<close>.
\<close>

theorem stream_takeN_round_trip:
  assumes "heap s array = HArr xs" "array < nheap s" "xs \<noteq> []" "Null \<notin> set xs"
      and "filled s (Base b) = None" "chans s b = \<lparr> queue = [], pending = [] \<rparr>" "ticks s = []"
  shows "then_run d (2 * length xs + 2)
           (then_takeN (Base b) (int (length xs)) (Some (User c))
              (stream d (Base b) array (Some (User a)) s)) =
         Some (Ok (s\<lparr>nvars := Suc (nvars s), nheap := Suc (nheap s),
                     vars := (vars s)(nvars s := int (length xs)),
                     heap := (heap s)(nheap s := HArr xs),
                     chans := (chans s)(b := \<lparr> queue = [], pending = [] \<rparr>),
                     ticks := [],
                     calls := calls s @ [\<lparr> call_id = a, call_err = Null, call_value = Ref array \<rparr>,
                                         \<lparr> call_id = c, call_err = Null, call_value = Ref (nheap s) \<rparr>]\<rparr>))
       \<and> then_run d (2 * length xs + 2)
           (then_stream d (Base b) array (Some (User a))
              (Some (takeN (Base b) (int (length xs)) (Some (User c)) s))) =
         Some (Ok (s\<lparr>nvars := Suc (nvars s), nheap := Suc (nheap s),
                     vars := (vars s)(nvars s := int (length xs)),
                     heap := (heap s)(nheap s := HArr xs),
                     chans := (chans s)(b := \<lparr> queue = [], pending = [] \<rparr>),
                     ticks := [],
                     calls := calls s @ [\<lparr> call_id = a, call_err = Null, call_value = Ref array \<rparr>,
                                         \<lparr> call_id = c, call_err = Null, call_value = Ref (nheap s) \<rparr>]\<rparr>))"
proof -
  have "0 < length xs" using assms(3) by simp
  then have n: "2 * length xs + 2 = 2 * (length xs - 1) + 4" "0 < (1::nat)" "1 \<le> length xs"
    by arith+
  have e: "run d (2 * (length xs - 1) + 4)
             (exchanging s array b (Some (User a)) (Some (User c)) (int (length xs)) xs 1) =
           Some (Ok (s\<lparr>nvars := Suc (nvars s), nheap := Suc (nheap s),
                     vars := (vars s)(nvars s := int (length xs)),
                     heap := (heap s)(nheap s := HArr xs),
                     chans := (chans s)(b := \<lparr> queue = [], pending = [] \<rparr>),
                     ticks := [],
                     calls := calls s @ [\<lparr> call_id = a, call_err = Null, call_value = Ref array \<rparr>,
                                         \<lparr> call_id = c, call_err = Null, call_value = Ref (nheap s) \<rparr>]\<rparr>))"
    by (rule exchange_all[OF assms(1,2,5,3,4) n(2,3)])
  show ?thesis
    by (simp only: stream_then_takeN[OF assms(1,2,3,5,6,7)] n(1) then_run.simps e)
qed

theorem stream_takeN_round_trip_witness:
  "map_option (\<lambda>r. (calls (state_of r), heap (state_of r) 0, heap (state_of r) 1, ticks (state_of r)))
     (then_run 0 8 (then_takeN (Base 0) 3 (Some (User 1))
        (stream 0 (Base 0) 0 (Some (User 0)) array_123))) =
     Some ([\<lparr> call_id = 0, call_err = Null, call_value = Ref 0 \<rparr>,
            \<lparr> call_id = 1, call_err = Null, call_value = Ref 1 \<rparr>],
           HArr [Num 1, Num 2, Num 3], HArr [Num 1, Num 2, Num 3], [])
   \<and> map_option (\<lambda>r. (calls (state_of r), heap (state_of r) 0, heap (state_of r) 1, ticks (state_of r)))
     (then_run 0 8 (then_stream 0 (Base 0) 0 (Some (User 0))
        (Some (takeN (Base 0) 3 (Some (User 1)) array_123)))) =
     Some ([\<lparr> call_id = 0, call_err = Null, call_value = Ref 0 \<rparr>,
            \<lparr> call_id = 1, call_err = Null, call_value = Ref 1 \<rparr>],
           HArr [Num 1, Num 2, Num 3], HArr [Num 1, Num 2, Num 3], [])"
proof -
  have h: "heap array_123 0 = HArr [Num 1, Num 2, Num 3]" "0 < nheap array_123"
      "[Num 1, Num 2, Num 3] \<noteq> []" "Null \<notin> set [Num 1, Num 2, Num 3]"
      "filled array_123 (Base 0) = None" "chans array_123 0 = \<lparr> queue = [], pending = [] \<rparr>"
      "ticks array_123 = []"
    by (simp_all add: array_123_def new_array_def init_def)
  have "nheap array_123 = 1" "calls array_123 = []"
    by (simp_all add: array_123_def new_array_def init_def)
  then show ?thesis
    using stream_takeN_round_trip[OF h, of 0 1 0] h(1) by simp
qed

section \<open>Properties of the callback of \<^verbatim>\<open>put\<close>\<close>

lemma filter_update_length:
  "j < length xs \<Longrightarrow> \<not> P y \<Longrightarrow>
   length (filter P xs) = length (filter P (xs[j := y])) + (if P (xs ! j) then 1 else 0)"
  by (induction xs arbitrary: j) (auto split: nat.splits)

lemma set_update_cases: "x \<in> set (xs[j := y]) \<Longrightarrow> x = y \<or> x \<in> set xs"
  by (metis insertE set_update_subset_insert subsetD)

lemma ticks_send:
  "ticks (sendValue w c s) =
     ticks s @ (case c of None \<Rightarrow> [] | Some k \<Rightarrow> [\<lparr> task_callback = k, task_err = Null, task_value = w \<rparr>])"
  "ticks (sendError e c s) =
     ticks s @ (case c of None \<Rightarrow> [] | Some k \<Rightarrow> [\<lparr> task_callback = k, task_err = e, task_value = Null \<rparr>])"
  by (simp_all add: prim_defs split: option.splits)

lemma calls_prims [simp]:
  "calls (Channel_take b c s) = calls s"
  "calls (Channel_put b w c s) = calls s"
  "calls (state_of (bufferedTake_release this N s)) = calls s"
  by (auto simp: prim_defs bufferedTake_release_def split: option.splits list.splits)

lemma ticks_release:
  "ticks (state_of (bufferedTake_release this N s)) =
     ticks s @ (if N \<le> backlog s this \<and> 0 \<le> N - 1 \<and>
                   nat (N - 1) < length (queue (chans s (root this)))
                then ack_task (queue (chans s (root this)) ! nat (N - 1)) else [])"
  by (simp add: bufferedTake_release_def Let_def set_chan_def ticks_send ack_task_def)

lemma ack_inv_send:
  assumes "ack_inv a E v b n s" "c \<noteq> Some (User a)"
  shows "ack_inv a E v b n (sendValue w c s)" "ack_inv a E v b n (sendError e c s)"
  using assms
  by (auto simp: ack_inv_def n_calls_def n_ticks_def n_parked_def ticks_send split: option.splits)


lemma ack_invD:
  assumes "ack_inv a E v b n s"
  shows "n_calls a s + n_ticks a s + n_parked a s b = n"
    and "b' \<noteq> b \<Longrightarrow> n_parked a s b' = 0"
    and "User a \<notin> set (pending (chans s b'))"
    and "x \<in> set (calls s) \<Longrightarrow> call_id x = a \<Longrightarrow> (call_err x, call_value x) = E"
    and "t \<in> set (ticks s) \<Longrightarrow> task_callback t = User a \<Longrightarrow> (task_err t, task_value t) = E"
    and "q \<in> set (queue (chans s b)) \<Longrightarrow> cbv_callback q = Some (User a) \<Longrightarrow>
           cbv_value q = v \<and> E = (Null, v)"
  using assms by (auto simp: ack_inv_def)

lemma ack_invI:
  assumes "n_calls a s + n_ticks a s + n_parked a s b = n"
    and "\<And>b'. b' \<noteq> b \<Longrightarrow> n_parked a s b' = 0"
    and "\<And>b'. User a \<notin> set (pending (chans s b'))"
    and "\<And>x. x \<in> set (calls s) \<Longrightarrow> call_id x = a \<Longrightarrow> (call_err x, call_value x) = E"
    and "\<And>t. t \<in> set (ticks s) \<Longrightarrow> task_callback t = User a \<Longrightarrow> (task_err t, task_value t) = E"
    and "\<And>q. q \<in> set (queue (chans s b)) \<Longrightarrow> cbv_callback q = Some (User a) \<Longrightarrow>
           cbv_value q = v \<and> E = (Null, v)"
  shows "ack_inv a E v b n s"
  using assms unfolding ack_inv_def by blast

lemma ack_inv_take:
  assumes inv: "ack_inv a E v b n s" and c: "c \<noteq> Some (User a)"
  shows "ack_inv a E v b n (Channel_take b1 c s)"
proof (cases "queue (chans s b1)")
  case Nil
  show ?thesis
  proof (cases c)
    case None
    then show ?thesis using Nil inv by (simp add: Channel_take_def)
  next
    case (Some k)
    then have k: "k \<noteq> User a" using c by simp
    have eq: "Channel_take b1 c s = s\<lparr>chans := (chans s)(b1 := (chans s b1)\<lparr>pending := pending (chans s b1) @ [k]\<rparr>)\<rparr>"
      using Nil Some by (simp add: prim_defs)
    show ?thesis
      unfolding eq
      using ack_invD[OF inv] k
      by (intro ack_invI) (auto simp: n_calls_def n_ticks_def n_parked_def split: if_splits)
  qed
next
  case (Cons q qs)
  let ?P = "\<lambda>q. cbv_callback q = Some (User a)"
  let ?ct = "case c of None \<Rightarrow> [] | Some k \<Rightarrow> [\<lparr> task_callback = k, task_err = Null, task_value = cbv_value q \<rparr>]"
  have eq: "Channel_take b1 c s =
      s\<lparr>chans := (chans s)(b1 := (chans s b1)\<lparr>queue := qs\<rparr>), ticks := ticks s @ ack_task q @ ?ct\<rparr>"
    using Cons by (simp add: prim_defs ack_task_def split: option.splits)
  have nc: "filter (\<lambda>t. task_callback t = User a) ?ct = []"
    using c by (auto split: option.splits)
  have qb: "?P q \<Longrightarrow> b1 = b"
    using ack_invD(2)[OF inv, of b1] Cons by (auto simp: n_parked_def split: if_splits)
  have qv: "?P q \<Longrightarrow> cbv_value q = v \<and> E = (Null, v)"
    using ack_invD(6)[OF inv, of q] qb Cons by auto
  have na: "length (filter (\<lambda>t. task_callback t = User a) (ack_task q)) = (if ?P q then 1 else 0)"
    by (auto simp: ack_task_def split: option.splits)
  have np: "n_parked a s b1 = (if ?P q then 1 else 0) + length (filter ?P qs)"
    using Cons by (simp add: n_parked_def)
  show ?thesis
    unfolding eq
  proof (intro ack_invI)
    show "n_calls a (s\<lparr>chans := (chans s)(b1 := (chans s b1)\<lparr>queue := qs\<rparr>), ticks := ticks s @ ack_task q @ ?ct\<rparr>) +
          n_ticks a (s\<lparr>chans := (chans s)(b1 := (chans s b1)\<lparr>queue := qs\<rparr>), ticks := ticks s @ ack_task q @ ?ct\<rparr>) +
          n_parked a (s\<lparr>chans := (chans s)(b1 := (chans s b1)\<lparr>queue := qs\<rparr>), ticks := ticks s @ ack_task q @ ?ct\<rparr>) b = n"
      using ack_invD(1)[OF inv] ack_invD(2)[OF inv, of b1] na nc np qb
      by (cases "b1 = b") (auto simp: n_calls_def n_ticks_def n_parked_def split: if_splits)
  next
    fix b' assume "b' \<noteq> b"
    then show "n_parked a (s\<lparr>chans := (chans s)(b1 := (chans s b1)\<lparr>queue := qs\<rparr>), ticks := ticks s @ ack_task q @ ?ct\<rparr>) b' = 0"
      using ack_invD(2)[OF inv, of b'] Cons by (auto simp: n_parked_def split: if_splits)
  next
    fix b'
    show "User a \<notin> set (pending (chans (s\<lparr>chans := (chans s)(b1 := (chans s b1)\<lparr>queue := qs\<rparr>), ticks := ticks s @ ack_task q @ ?ct\<rparr>) b'))"
      using ack_invD(3)[OF inv, of b'] by auto
  next
    fix x assume "x \<in> set (calls (s\<lparr>chans := (chans s)(b1 := (chans s b1)\<lparr>queue := qs\<rparr>), ticks := ticks s @ ack_task q @ ?ct\<rparr>))" "call_id x = a"
    then show "(call_err x, call_value x) = E" using ack_invD(4)[OF inv, of x] by simp
  next
    fix t assume t: "t \<in> set (ticks (s\<lparr>chans := (chans s)(b1 := (chans s b1)\<lparr>queue := qs\<rparr>), ticks := ticks s @ ack_task q @ ?ct\<rparr>))"
      and ta: "task_callback t = User a"
    then consider "t \<in> set (ticks s)" | "t \<in> set (ack_task q)" | "t \<in> set ?ct" by auto
    then show "(task_err t, task_value t) = E"
    proof cases
      case 1
      then show ?thesis using ack_invD(5)[OF inv, of t] ta by simp
    next
      case 2
      then show ?thesis using ta qv by (auto simp: ack_task_def split: option.splits)
    next
      case 3
      then show ?thesis using ta c by (auto split: option.splits)
    qed
  next
    fix q' assume "q' \<in> set (queue (chans (s\<lparr>chans := (chans s)(b1 := (chans s b1)\<lparr>queue := qs\<rparr>), ticks := ticks s @ ack_task q @ ?ct\<rparr>) b))"
      and "cbv_callback q' = Some (User a)"
    then show "cbv_value q' = v \<and> E = (Null, v)"
      using ack_invD(6)[OF inv, of q'] Cons by (cases "b1 = b") auto
  qed
qed


lemma ack_inv_put:
  assumes inv: "ack_inv a E v b n s" and c: "c \<noteq> Some (User a)"
  shows "ack_inv a E v b n (Channel_put b1 w c s)"
proof (cases "pending (chans s b1)")
  case Nil
  have eq: "Channel_put b1 w c s =
      s\<lparr>chans := (chans s)(b1 := (chans s b1)\<lparr>queue := queue (chans s b1) @
              [\<lparr> cbv_callback = c, cbv_value = w \<rparr>]\<rparr>)\<rparr>"
    using Nil by (simp add: prim_defs)
  show ?thesis
    unfolding eq
    using ack_invD[OF inv] c
    by (intro ack_invI) (auto simp: n_calls_def n_ticks_def n_parked_def split: if_splits)
next
  case (Cons p ps)
  let ?ct = "case c of None \<Rightarrow> [] | Some k \<Rightarrow> [\<lparr> task_callback = k, task_err = Null, task_value = w \<rparr>]"
  have eq: "Channel_put b1 w c s =
      s\<lparr>chans := (chans s)(b1 := (chans s b1)\<lparr>pending := ps\<rparr>),
        ticks := ticks s @ ?ct @ [\<lparr> task_callback = p, task_err = Null, task_value = w \<rparr>]\<rparr>"
    using Cons by (simp add: prim_defs split: option.splits)
  have p: "p \<noteq> User a" using ack_invD(3)[OF inv, of b1] Cons by auto
  have ps: "User a \<notin> set ps" using ack_invD(3)[OF inv, of b1] Cons by auto
  have nc: "filter (\<lambda>t. task_callback t = User a) ?ct = []" "\<And>t. t \<in> set ?ct \<Longrightarrow> task_callback t \<noteq> User a"
    using c by (auto split: option.splits)
  show ?thesis
    unfolding eq
    using ack_invD[OF inv] p ps nc
    by (intro ack_invI) (auto simp: n_calls_def n_ticks_def n_parked_def split: if_splits)
qed

lemma ack_inv_release:
  assumes inv: "ack_inv a E v b n s"
  shows "ack_inv a E v b n (state_of (bufferedTake_release this N s))"
proof (cases "N \<le> backlog s this \<and> 0 \<le> N - 1 \<and> nat (N - 1) < length (queue (chans s (root this)))")
  case False
  then show ?thesis using inv by (auto simp: bufferedTake_release_def Let_def)
next
  case True
  let ?b1 = "root this"
  let ?j = "nat (N - 1)"
  let ?qs = "queue (chans s ?b1)"
  let ?q = "?qs ! ?j"
  let ?P = "\<lambda>q. cbv_callback q = Some (User a)"
  let ?s' = "s\<lparr>chans := (chans s)(?b1 := (chans s ?b1)\<lparr>queue := ?qs[?j := ?q\<lparr>cbv_callback := None\<rparr>]\<rparr>),
               ticks := ticks s @ ack_task ?q\<rparr>"
  have eq: "state_of (bufferedTake_release this N s) = ?s'"
    using True by (simp add: bufferedTake_release_def Let_def prim_defs ack_task_def split: option.splits)
  have j: "?j < length ?qs" using True by simp
  have qin: "?q \<in> set ?qs" using j by simp
  have qb: "?P ?q \<Longrightarrow> ?b1 = b"
  proof (rule ccontr)
    assume P: "?P ?q" and "?b1 \<noteq> b"
    then have "filter ?P ?qs = []" using ack_invD(2)[OF inv, of ?b1] by (simp add: n_parked_def)
    then show False using qin P by (simp add: filter_empty_conv)
  qed
  have qv: "?P ?q \<Longrightarrow> cbv_value ?q = v \<and> E = (Null, v)"
    using ack_invD(6)[OF inv, of ?q] qb qin by auto
  have na: "length (filter (\<lambda>t. task_callback t = User a) (ack_task ?q)) = (if ?P ?q then 1 else 0)"
    by (auto simp: ack_task_def split: option.splits)
  have np: "length (filter ?P ?qs) =
            length (filter ?P (?qs[?j := ?q\<lparr>cbv_callback := None\<rparr>])) + (if ?P ?q then 1 else 0)"
    by (rule filter_update_length[OF j]) simp
  show ?thesis
    unfolding eq
  proof (intro ack_invI)
    show "n_calls a ?s' + n_ticks a ?s' + n_parked a ?s' b = n"
      using ack_invD(1)[OF inv] na np qb
      by (cases "?b1 = b") (auto simp: n_calls_def n_ticks_def n_parked_def split: if_splits)
  next
    fix b' assume b': "b' \<noteq> b"
    show "n_parked a ?s' b' = 0"
    proof (cases "b' = ?b1")
      case False
      then show ?thesis using ack_invD(2)[OF inv b'] by (simp add: n_parked_def)
    next
      case True
      have "length (filter ?P ?qs) = 0" using ack_invD(2)[OF inv b'] True by (simp add: n_parked_def)
      then show ?thesis using np True by (simp add: n_parked_def)
    qed
  next
    fix b'
    show "User a \<notin> set (pending (chans ?s' b'))"
      using ack_invD(3)[OF inv, of b'] by auto
  next
    fix x assume "x \<in> set (calls ?s')" "call_id x = a"
    then show "(call_err x, call_value x) = E" using ack_invD(4)[OF inv, of x] by simp
  next
    fix t assume t: "t \<in> set (ticks ?s')" and ta: "task_callback t = User a"
    then consider "t \<in> set (ticks s)" | "t \<in> set (ack_task ?q)" by auto
    then show "(task_err t, task_value t) = E"
    proof cases
      case 1
      then show ?thesis using ack_invD(5)[OF inv, of t] ta by simp
    next
      case 2
      then show ?thesis using ta qv by (auto simp: ack_task_def split: option.splits)
    qed
  next
    fix q' assume q': "q' \<in> set (queue (chans ?s' b))" and qa: "cbv_callback q' = Some (User a)"
    show "cbv_value q' = v \<and> E = (Null, v)"
    proof (cases "?b1 = b")
      case False
      then show ?thesis using q' qa ack_invD(6)[OF inv, of q'] by simp
    next
      case True
      then have "q' \<in> set (?qs[?j := ?q\<lparr>cbv_callback := None\<rparr>])" using q' by simp
      then have "q' = ?q\<lparr>cbv_callback := None\<rparr> \<or> q' \<in> set ?qs" by (rule set_update_cases)
      then show ?thesis using qa True ack_invD(6)[OF inv, of q'] by auto
    qed
  qed
qed

lemma ack_inv_preserved: "preserved (\<lambda>c. c \<noteq> Some (User a)) (ack_inv a E v b n)"
  unfolding preserved_def
  using ack_inv_send ack_inv_take ack_inv_put ack_inv_release by simp


lemma ack_inv_filled [simp]: "ack_inv a E v b n (s\<lparr>filled := f\<rparr>) = ack_inv a E v b n s"
  by (simp add: ack_inv_def n_calls_def n_ticks_def n_parked_def)

lemma ack_inv_tick:
  assumes inv: "ack_inv a E v b n s" and t: "ticks s = t # ts"
  shows "ack_inv a E v b n (s\<lparr>ticks := ts, calls := calls s @ call_of t\<rparr>)"
proof (cases "task_callback t = User a")
  case True
  then have c: "call_of t = [\<lparr> call_id = a, call_err = task_err t, call_value = task_value t \<rparr>]"
    by simp
  have E: "(task_err t, task_value t) = E" using ack_invD(5)[OF inv, of t] t True by simp
  show ?thesis
    unfolding c ack_inv_def
    using inv[unfolded ack_inv_def] t True E
    by (simp add: n_calls_def n_ticks_def n_parked_def)
next
  case False
  then have c: "filter (\<lambda>x. call_id x = a) (call_of t) = []" "\<forall>x \<in> set (call_of t). call_id x \<noteq> a"
    by (auto split: cb.splits)
  show ?thesis
    unfolding ack_inv_def
    using inv[unfolded ack_inv_def] t False c
    by (auto simp: n_calls_def n_ticks_def n_parked_def)
qed

lemma step_ack_inv:
  assumes u: "user_only s" and inv: "ack_inv a E v b n s" and x: "op_cb x \<noteq> Some a"
      and r: "step d x s = Some r"
  shows "ack_inv a E v b n (state_of r)"
proof (cases x)
  case (Put c w k)
  then have "map_option User k \<noteq> Some (User a)" using x by (cases k) auto
  then show ?thesis using put_preserved(2)[OF ack_inv_preserved _ inv] r Put by simp
next
  case (Take c k)
  then have "map_option User k \<noteq> Some (User a)" using x by (cases k) auto
  then show ?thesis using take_ch_preserved[OF ack_inv_preserved inv] r Take by auto
next
  case (Fill c w)
  have fr: "fill c w s = Some r" using r Fill by simp
  show ?thesis
  proof (rule fill_preserved[OF ack_inv_preserved _ fr inv])
    fix s' assume "ack_inv a E v b n s'"
    then show "ack_inv a E v b n (s'\<lparr>filled := (filled s')(c \<mapsto> w)\<rparr>)" by simp
  qed
next
  case Tick
  show ?thesis
  proof (cases "ticks s")
    case Nil
    then show ?thesis using Tick r inv tick_user[OF u, of d] by auto
  next
    case (Cons t ts)
    then show ?thesis using Tick r ack_inv_tick[OF inv Cons] tick_user[OF u, of d] by auto
  qed
qed

lemma exec_ack_inv:
  "user_only s \<Longrightarrow> ack_inv a E v b n s \<Longrightarrow> \<forall>x \<in> set ops. op_cb x \<noteq> Some a \<Longrightarrow>
   exec d ops s = Some s' \<Longrightarrow> ack_inv a E v b n s' \<and> user_only s'"
proof (induction ops arbitrary: s)
  case Nil
  then show ?case by simp
next
  case (Cons x xs)
  from Cons.prems(4) obtain r where r: "step d x s = Some r" and e: "exec d xs (state_of r) = Some s'"
    by (auto split: option.splits)
  have x: "op_cb x \<noteq> Some a" using Cons.prems(3) by simp
  have xs: "\<forall>x \<in> set xs. op_cb x \<noteq> Some a" using Cons.prems(3) by simp
  have 1: "ack_inv a E v b n (state_of r)" by (rule step_ack_inv[OF Cons.prems(1,2) x r])
  have 2: "user_only (state_of r)" by (rule user_only_step[OF Cons.prems(1) r])
  show ?case by (rule Cons.IH[OF 2 1 xs e])
qed

lemma ack_inv_init: "ack_inv a E v b 0 init"
  by (simp add: ack_inv_def n_calls_def n_ticks_def n_parked_def init_def)

lemma ack_inv_0_iff:
  "ack_inv a E v b 0 s \<longleftrightarrow>
     (\<forall>x \<in> set (calls s). call_id x \<noteq> a) \<and>
     (\<forall>t \<in> set (ticks s). task_callback t \<noteq> User a) \<and>
     (\<forall>b'. \<forall>q \<in> set (queue (chans s b')). cbv_callback q \<noteq> Some (User a)) \<and>
     (\<forall>b'. User a \<notin> set (pending (chans s b')))"
proof
  assume inv: "ack_inv a E v b 0 s"
  have 0: "n_calls a s = 0" "n_ticks a s = 0" "n_parked a s b = 0"
    using ack_invD(1)[OF inv] by simp_all
  have p: "n_parked a s b' = 0" for b'
    using 0(3) ack_invD(2)[OF inv, of b'] by (cases "b' = b") simp_all
  have 1: "\<forall>x \<in> set (calls s). call_id x \<noteq> a"
    using 0(1) by (simp add: n_calls_def filter_empty_conv)
  have 2: "\<forall>t \<in> set (ticks s). task_callback t \<noteq> User a"
    using 0(2) by (simp add: n_ticks_def filter_empty_conv)
  have 3: "\<forall>b'. \<forall>q \<in> set (queue (chans s b')). cbv_callback q \<noteq> Some (User a)"
    using p by (simp add: n_parked_def filter_empty_conv)
  have 4: "\<forall>b'. User a \<notin> set (pending (chans s b'))"
    using ack_invD(3)[OF inv] by simp
  from 1 2 3 4 show "(\<forall>x \<in> set (calls s). call_id x \<noteq> a) \<and>
     (\<forall>t \<in> set (ticks s). task_callback t \<noteq> User a) \<and>
     (\<forall>b'. \<forall>q \<in> set (queue (chans s b')). cbv_callback q \<noteq> Some (User a)) \<and>
     (\<forall>b'. User a \<notin> set (pending (chans s b')))" by simp
next
  assume h: "(\<forall>x \<in> set (calls s). call_id x \<noteq> a) \<and>
     (\<forall>t \<in> set (ticks s). task_callback t \<noteq> User a) \<and>
     (\<forall>b'. \<forall>q \<in> set (queue (chans s b')). cbv_callback q \<noteq> Some (User a)) \<and>
     (\<forall>b'. User a \<notin> set (pending (chans s b')))"
  then have "n_calls a s = 0" "n_ticks a s = 0" "\<forall>b'. n_parked a s b' = 0"
    by (simp_all add: n_calls_def n_ticks_def n_parked_def filter_empty_conv)
  with h show "ack_inv a E v b 0 s"
    by (simp add: ack_inv_def)
qed

lemma ack_inv_0:
  assumes "ack_inv a E v b 0 s"
  shows "ack_inv a E' v' b' 0 s"
  using assms by (simp add: ack_inv_0_iff)

lemma ack_inv_tick_intro:
  assumes inv: "ack_inv a E0 v0 b0 0 s"
  shows "ack_inv a (e, w) v b 1 (s\<lparr>ticks := ticks s @ [\<lparr> task_callback = User a, task_err = e, task_value = w \<rparr>]\<rparr>)"
proof -
  have h: "\<forall>x \<in> set (calls s). call_id x \<noteq> a"
     "\<forall>t \<in> set (ticks s). task_callback t \<noteq> User a"
     "\<forall>b'. \<forall>q \<in> set (queue (chans s b')). cbv_callback q \<noteq> Some (User a)"
     "\<forall>b'. User a \<notin> set (pending (chans s b'))"
    using inv by (simp_all add: ack_inv_0_iff)
  then have n: "n_calls a s = 0" "n_ticks a s = 0" "\<forall>b'. n_parked a s b' = 0"
    by (simp_all add: n_calls_def n_ticks_def n_parked_def filter_empty_conv)
  show ?thesis
    unfolding ack_inv_def
    using h n by (simp add: n_calls_def n_ticks_def n_parked_def)
qed

lemma ack_inv_send_intro:
  assumes "ack_inv a E0 v0 b0 0 s"
  shows "ack_inv a (Null, w) v b 1 (sendValue w (Some (User a)) s)"
    and "ack_inv a (e, Null) v b 1 (sendError e (Some (User a)) s)"
  using ack_inv_tick_intro[OF assms] by (simp_all add: prim_defs)

lemma ack_inv_put_intro:
  assumes inv: "ack_inv a E0 v0 b0 0 s"
  shows "ack_inv a (Null, v) v b 1 (Channel_put b v (Some (User a)) s)"
proof -
  have h: "\<forall>x \<in> set (calls s). call_id x \<noteq> a"
     "\<forall>t \<in> set (ticks s). task_callback t \<noteq> User a"
     "\<forall>b'. \<forall>q \<in> set (queue (chans s b')). cbv_callback q \<noteq> Some (User a)"
     "\<forall>b'. User a \<notin> set (pending (chans s b'))"
    using inv by (simp_all add: ack_inv_0_iff)
  then have n: "n_calls a s = 0" "n_ticks a s = 0" "\<forall>b'. n_parked a s b' = 0"
    by (simp_all add: n_calls_def n_ticks_def n_parked_def filter_empty_conv)
  show ?thesis
  proof (cases "pending (chans s b)")
    case Nil
    have eq: "Channel_put b v (Some (User a)) s =
        s\<lparr>chans := (chans s)(b := (chans s b)\<lparr>queue := queue (chans s b) @
                [\<lparr> cbv_callback = Some (User a), cbv_value = v \<rparr>]\<rparr>)\<rparr>"
      using Nil by (simp add: prim_defs)
    show ?thesis
      unfolding eq ack_inv_def
      using h n by (simp add: n_calls_def n_ticks_def n_parked_def) 
  next
    case (Cons p ps)
    have eq: "Channel_put b v (Some (User a)) s =
        s\<lparr>chans := (chans s)(b := (chans s b)\<lparr>pending := ps\<rparr>),
          ticks := ticks s @ [\<lparr> task_callback = User a, task_err = Null, task_value = v \<rparr>,
                              \<lparr> task_callback = p, task_err = Null, task_value = v \<rparr>]\<rparr>"
      using Cons by (simp add: prim_defs)
    have p: "p \<noteq> User a" "User a \<notin> set ps" using h(4) Cons by (metis list.set_intros(1), metis list.set_intros(2))
    show ?thesis
      unfolding eq ack_inv_def
      using h n p by (simp add: n_calls_def n_ticks_def n_parked_def)
  qed
qed


lemma put_ack_intro:
  "origPut c v cb s = Some (Ok s1) \<Longrightarrow> cb = Some (User a) \<Longrightarrow> ack_inv a E0 v0 b0 0 s \<Longrightarrow>
     filled s c = None \<Longrightarrow> ack_inv a (ack_args s c v) v (root c) 1 s1"
  "put c v cb s = Some (Ok s1) \<Longrightarrow> cb = Some (User a) \<Longrightarrow> ack_inv a E0 v0 b0 0 s \<Longrightarrow>
     ack_inv a (ack_args s c v) v (root c) 1 s1"
proof (induction c v cb s and c v cb s arbitrary: s1 and s1 rule: origPut_put.induct)
  case (1 b v callback s)
  then show ?case using ack_inv_put_intro[of a E0 v0 b0 s v b] by simp
next
  case (2 i N p v callback s)
  show ?case
  proof (cases "backlog s (Wrap i Buffered N p) < N")
    case True
    with "2.prems"(1) obtain s' where s': "put p v None s = Some (Ok s')"
        and s1: "s1 = sendValue v callback s'"
      by (auto split: option.splits result.splits)
    have "ack_inv a E0 v0 b0 0 (state_of (Ok s'))"
      by (rule put_preserved(2)[OF ack_inv_preserved s' "2.prems"(3)]) simp
    then have "ack_inv a (Null, v) v (root p) 1 s1"
      using ack_inv_send_intro(1)[of a E0 v0 b0 s' v v "root p"] s1 "2.prems"(2) by simp
    then show ?thesis using True "2.prems"(4) by simp
  next
    case False
    then have "put p v callback s = Some (Ok s1)" using "2.prems"(1) by simp
    from "2.IH"(2)[OF False this "2.prems"(2,3)] show ?thesis using False "2.prems"(4) by simp
  qed
next
  case (3 i N p v callback s)
  show ?case
  proof (cases "backlog s (Wrap i Dropping N p) < N")
    case True
    with "3.prems"(1) obtain s' where s': "put p v None s = Some (Ok s')"
        and s1: "s1 = sendValue v callback s'"
      by (auto split: option.splits result.splits)
    have "ack_inv a E0 v0 b0 0 (state_of (Ok s'))"
      by (rule put_preserved(2)[OF ack_inv_preserved s' "3.prems"(3)]) simp
    then have "ack_inv a (Null, v) v (root p) 1 s1"
      using ack_inv_send_intro(1)[of a E0 v0 b0 s' v v "root p"] s1 "3.prems"(2) by simp
    then show ?thesis using True "3.prems"(4) by simp
  next
    case False
    then have "s1 = sendValue Null callback s" using "3.prems"(1) by simp
    then have "ack_inv a (Null, Null) v (root p) 1 s1"
      using ack_inv_send_intro(1)[OF "3.prems"(3), of Null v "root p"] "3.prems"(2) by simp
    then show ?thesis using False "3.prems"(4) by simp
  qed
next
  case (4 i N p v callback s)
  from "4.prems"(1) obtain s' s'' where l: "expiringPut_loop (Wrap i Expiring N p) N s = Some (Ok s')"
      and s'': "put p v None s' = Some (Ok s'')" and s1: "s1 = sendValue v callback s''"
    by (auto split: option.splits result.splits)
  have "ack_inv a E0 v0 b0 0 (state_of (Ok s'))"
    by (rule expiringPut_loop_preserved[OF ack_inv_preserved l "4.prems"(3)])
  then have 1: "ack_inv a E0 v0 b0 0 s'" by simp
  have "ack_inv a E0 v0 b0 0 (state_of (Ok s''))"
    by (rule put_preserved(2)[OF ack_inv_preserved s'' 1]) simp
  then have "ack_inv a (Null, v) v (root p) 1 s1"
    using ack_inv_send_intro(1)[of a E0 v0 b0 s'' v v "root p"] s1 "4.prems"(2) by simp
  then show ?case using "4.prems"(4) by simp
next
  case (5 b v callback s)
  show ?case
  proof (cases "filled s (Base b)")
    case None
    then show ?thesis using 5 ack_inv_put_intro[of a E0 v0 b0 s v b] by simp
  next
    case (Some x)
    then show ?thesis
      using 5 ack_inv_send_intro(2)[of a E0 v0 b0 s "Str ''filled''" v b] by simp
  qed
next
  case (6 i k N p v callback s)
  show ?case
  proof (cases "filled s (Wrap i k N p)")
    case None
    then have "origPut (Wrap i k N p) v callback s = Some (Ok s1)" using "6.prems"(1) by simp
    from "6.IH"[OF None this "6.prems"(2,3) None] show ?thesis .
  next
    case (Some x)
    then show ?thesis
      using "6.prems" ack_inv_send_intro(2)[of a E0 v0 b0 s "Str ''filled''" v "root p"] by simp
  qed
qed


lemma expiringPut_loop_diverges:
  assumes "expiringPut_loop this N s = Some r"
  shows "\<not> (take_ch this None s = Ok s \<and> N \<le> backlog s this)"
  using assms
proof (induction this N s r rule: expiringPut_loop.raw_induct[rotated 1, consumes 1])
  case (1 loop this N s r)
  show ?case
  proof
    assume a: "take_ch this None s = Ok s \<and> N \<le> backlog s this"
    with 1(2) have "loop this N s = Some r" by simp
    from 1(1)[OF this] a show False by simp
  qed
qed

text \<open>
  C2, as stated, fails for \<^verbatim>\<open>expiringBuffer\<close>. On \<^verbatim>\<open>e = ch.expiringBuffer(1)\<close>,
  \<^verbatim>\<open>e.put(1, ack1); e.put(2, ack2); e.take(cb)\<close> and three turns of the event loop:
  the second \<^verbatim>\<open>put\<close> discards the value 1 and \<open>cb\<close> (3) receives 2, yet \<open>ack1\<close> has
  been called with \<^verbatim>\<open>(null, 1)\<close>, not with \<^verbatim>\<open>(null, null)\<close>. And
  \<^verbatim>\<open>ch.expiringBuffer(0).put(1, ack)\<close> does not return, so that \<open>ack\<close> is never called:
  the loop of \<^verbatim>\<open>expiringPut\<close> takes from an empty queue forever.
\<close>

theorem put_ack_counterexample:
  "map_option calls
     (exec 0 [Put (Wrap 1 Expiring 1 (Base 0)) (Num 1) (Some 1),
              Put (Wrap 1 Expiring 1 (Base 0)) (Num 2) (Some 2),
              Take (Wrap 1 Expiring 1 (Base 0)) (Some 3), Tick, Tick, Tick] init) =
     Some [\<lparr> call_id = 1, call_err = Null, call_value = Num 1 \<rparr>,
           \<lparr> call_id = 2, call_err = Null, call_value = Num 2 \<rparr>,
           \<lparr> call_id = 3, call_err = Null, call_value = Num 2 \<rparr>]
   \<and> exec 0 [Put (Wrap 1 Expiring 0 (Base 0)) (Num 1) (Some 1)] init = None"
proof -
  have 1: "map_option calls
     (exec 0 [Put (Wrap 1 Expiring 1 (Base 0)) (Num 1) (Some 1),
              Put (Wrap 1 Expiring 1 (Base 0)) (Num 2) (Some 2),
              Take (Wrap 1 Expiring 1 (Base 0)) (Some 3), Tick, Tick, Tick] init) =
     Some [\<lparr> call_id = 1, call_err = Null, call_value = Num 1 \<rparr>,
           \<lparr> call_id = 2, call_err = Null, call_value = Num 2 \<rparr>,
           \<lparr> call_id = 3, call_err = Null, call_value = Num 2 \<rparr>]"
    by code_simp
  let ?c = "Wrap 1 Expiring 0 (Base 0)"
  have "take_ch ?c None init = Ok init \<and> 0 \<le> backlog init ?c"
    by (simp add: init_def backlog_def prim_defs)
  then have "expiringPut_loop ?c 0 init = None"
    using expiringPut_loop_diverges[of ?c 0 init] by (cases "expiringPut_loop ?c 0 init") auto
  then have 2: "exec 0 [Put ?c (Num 1) (Some 1)] init = None"
    by (simp add: init_def)
  from 1 2 show ?thesis by simp
qed

text \<open>
  C2, amended. Let \<^verbatim>\<open>put(v, ack)\<close> on a channel object \<open>c\<close> (a base channel or a
  \<^verbatim>\<open>buffer\<close>, \<^verbatim>\<open>droppingBuffer\<close> or \<^verbatim>\<open>expiringBuffer\<close>, filled or not) return, in a
  state reached from new channels by \<^verbatim>\<open>put\<close>, \<^verbatim>\<open>take\<close>, \<^verbatim>\<open>fill\<close> and turns of the
  event loop, with \<open>ack\<close> a callback that no other operation is given. Then after any
  further operations \<open>ack\<close> is in exactly one place: it has been called once, or one
  call of it is scheduled, or it is parked with \<open>v\<close> in the queue of the base channel. So
  it is called at most once, and exactly once as soon as it is neither parked nor scheduled.
  Its arguments, in a call made or scheduled, are \<open>ack_args\<close> of the state in which \<^verbatim>\<open>put\<close>
  was called: \<^verbatim>\<open>('filled', null)\<close> on a filled object; otherwise \<^verbatim>\<open>(null, null)\<close> from
  a \<^verbatim>\<open>droppingBuffer\<close> at capacity, what the wrapped object's \<^verbatim>\<open>put\<close> gives from a
  \<^verbatim>\<open>buffer\<close> at capacity, and \<^verbatim>\<open>(null, v)\<close> in every other case, so also from an
  \<^verbatim>\<open>expiringBuffer\<close> for a value that it discards later.
\<close>

theorem put_ack_once:
  assumes "exec d ops0 init = Some s0" "\<forall>x \<in> set ops0. op_cb x \<noteq> Some a"
      and "put c v (Some (User a)) s0 = Some (Ok s1)"
      and "exec d ops1 s1 = Some s" "\<forall>x \<in> set ops1. op_cb x \<noteq> Some a"
  shows "n_calls a s + n_ticks a s + n_parked a s (root c) = 1
       \<and> (\<forall>x \<in> set (calls s). call_id x = a \<longrightarrow> (call_err x, call_value x) = ack_args s0 c v)
       \<and> (\<forall>t \<in> set (ticks s). task_callback t = User a \<longrightarrow>
            (task_err t, task_value t) = ack_args s0 c v)
       \<and> (\<forall>q \<in> set (queue (chans s (root c))). cbv_callback q = Some (User a) \<longrightarrow>
            cbv_value q = v \<and> ack_args s0 c v = (Null, v))"
proof -
  have 0: "ack_inv a (Null, v) v (root c) 0 s0 \<and> user_only s0"
    by (rule exec_ack_inv[OF user_only_init ack_inv_init assms(2,1)])
  then have i0: "ack_inv a (Null, v) v (root c) 0 s0" and u0: "user_only s0" by simp_all
  have i1: "ack_inv a (ack_args s0 c v) v (root c) 1 s1"
    by (rule put_ack_intro(2)[OF assms(3) refl i0])
  have "user_only (state_of (Ok s1))"
    by (rule put_preserved(2)[OF user_only_preserved assms(3) u0]) (simp add: user_cb_def is_User_def)
  then have u1: "user_only s1" by simp
  have "ack_inv a (ack_args s0 c v) v (root c) 1 s \<and> user_only s"
    by (rule exec_ack_inv[OF u1 i1 assms(5,4)])
  then show ?thesis by (simp add: ack_inv_def)
qed

theorem put_ack_once_witness:
  "map_option (\<lambda>s. (n_calls 1 s, n_ticks 1 s, n_parked 1 s 0, calls s))
     (exec 0 [Put (Wrap 1 Dropping 1 (Base 0)) (Num 8) None,
              Put (Wrap 1 Dropping 1 (Base 0)) (Num 9) (Some 1), Tick, Take (Base 0) (Some 2)] init) =
     Some (1, 0, 0, [\<lparr> call_id = 1, call_err = Null, call_value = Null \<rparr>])
   \<and> ack_args (init\<lparr>chans := (chans init)(0 :=
         \<lparr> queue = [\<lparr> cbv_callback = None, cbv_value = Num 8 \<rparr>], pending = [] \<rparr>)\<rparr>)
       (Wrap 1 Dropping 1 (Base 0)) (Num 9) = (Null, Null)"
proof -
  let ?c = "Wrap 1 Dropping 1 (Base 0)"
  let ?before = "init\<lparr>chans := (chans init)(0 :=
         \<lparr> queue = [\<lparr> cbv_callback = None, cbv_value = Num 8 \<rparr>], pending = [] \<rparr>)\<rparr>"
  let ?after = "?before\<lparr>ticks := [\<lparr> task_callback = User 1, task_err = Null, task_value = Null \<rparr>]\<rparr>"
  let ?final = "?before\<lparr>chans := (chans init)(0 := \<lparr> queue = [], pending = [] \<rparr>),
               ticks := [\<lparr> task_callback = User 2, task_err = Null, task_value = Num 8 \<rparr>],
               calls := [\<lparr> call_id = 1, call_err = Null, call_value = Null \<rparr>]\<rparr>"
  have h1: "exec 0 [Put ?c (Num 8) None] init = Some ?before"
    by (simp add: init_def backlog_def prim_defs tick_def)
  have h2: "\<forall>x \<in> set [Put ?c (Num 8) None]. op_cb x \<noteq> Some 1"
    by simp
  have h3: "put ?c (Num 9) (Some (User 1)) ?before = Some (Ok ?after)"
    by (simp add: init_def backlog_def prim_defs tick_def)
  have h4: "exec 0 [Tick, Take (Base 0) (Some 2)] ?after = Some ?final"
    by (simp add: init_def backlog_def prim_defs tick_def)
  have h5: "\<forall>x \<in> set [Tick, Take (Base 0) (Some 2)]. op_cb x \<noteq> Some 1"
    by simp
  note h = h1 h2 h3 h4 h5
  have e: "exec 0 [Put ?c (Num 8) None, Put ?c (Num 9) (Some 1), Tick, Take (Base 0) (Some 2)] init = Some ?final"
    by (simp add: init_def backlog_def prim_defs tick_def)
  have a: "ack_args ?before ?c (Num 9) = (Null, Null)"
    by (simp add: init_def backlog_def)
  show ?thesis
    using put_ack_once[OF h] e a
    by (simp add: n_calls_def n_ticks_def n_parked_def init_def)
qed

end
